theory Spec2Isabelle
  imports Main "HOL-Library.AList"
begin

section \<open>Reference strings: the regular expression and the parser\<close>

text \<open>
  Python strings are modelled as \<^typ>\<open>string\<close>. The class \<open>\w\<close> of the regular expression
  is modelled on ASCII input: letters, digits and the underscore.
\<close>

definition word_char :: "char \<Rightarrow> bool" where
  "word_char c \<longleftrightarrow>
     (let n = of_char c :: nat in
      (48 \<le> n \<and> n \<le> 57) \<or> (65 \<le> n \<and> n \<le> 90) \<or> n = 95 \<or> (97 \<le> n \<and> n \<le> 122))"

text \<open>\<open>\w+\<close>, greedy: the longest run of word characters, which must not be empty.\<close>

definition word :: "string \<Rightarrow> bool" where
  "word w \<longleftrightarrow> w \<noteq> [] \<and> list_all word_char w"

text \<open>Python's \<open>str.startswith\<close> and \<open>str.split\<close> with a one-character separator.\<close>

definition startswith :: "string \<Rightarrow> string \<Rightarrow> bool" where
  "startswith s p \<longleftrightarrow> take (length p) s = p"

fun split_sep :: "char \<Rightarrow> string \<Rightarrow> string list" where
  "split_sep c [] = [[]]"
| "split_sep c (x # xs) =
     (if x = c then [] # split_sep c xs
      else (x # hd (split_sep c xs)) # tl (split_sep c xs))"

text \<open>
  The group \<open>(?P<all_keys>(/\w+)*)\<close>: each round takes a slash and the longest non-empty
  run of word characters; the star stops at the first round that fails. The result is
  the matched text and the rest of the input.
\<close>

function match_all_keys :: "string \<Rightarrow> string \<times> string" where
  "match_all_keys s =
     (case s of
        [] \<Rightarrow> ([], s)
      | c # t \<Rightarrow>
          if c = CHR ''/'' \<and> takeWhile word_char t \<noteq> [] then
            (let (m, r) = match_all_keys (dropWhile word_char t)
             in (c # takeWhile word_char t @ m, r))
          else ([], s))"
  by pat_completeness auto
termination
  by (relation "measure length") (auto simp: length_dropWhile_le less_Suc_eq_le)

declare match_all_keys.simps [simp del]

text \<open>
  The group \<open>(?P<doc>(start|stop|desc/(?P<stream>\w+)))\<close>: the alternatives in their order.
  The result is the text of \<open>doc\<close>, the group \<open>stream\<close> and the rest of the input.
\<close>

definition match_doc :: "string \<Rightarrow> (string \<times> string option \<times> string) option" where
  "match_doc s =
     (if startswith s ''start'' then Some (''start'', None, drop 5 s)
      else if startswith s ''stop'' then Some (''stop'', None, drop 4 s)
      else if startswith s ''desc/'' \<and> takeWhile word_char (drop 5 s) \<noteq> [] then
        Some (''desc/'' @ takeWhile word_char (drop 5 s),
              Some (takeWhile word_char (drop 5 s)),
              dropWhile word_char (drop 5 s))
      else None)"

text \<open>The optional group \<open>(@(?P<attribute>\w+))?\<close>.\<close>

definition match_attribute :: "string \<Rightarrow> string option" where
  "match_attribute s =
     (case s of
        [] \<Rightarrow> None
      | c # t \<Rightarrow>
          if c = CHR ''@'' \<and> takeWhile word_char t \<noteq> [] then Some (takeWhile word_char t)
          else None)"

text \<open>
  \<open>_bluesky_doc_query_re.match\<close>: the pattern is anchored at the start of the string only.
  Every part after \<open>doc\<close> may match the empty text, so the greedy choice is never undone.
  The result is \<open>groupdict()\<close>: the groups \<open>doc\<close>, \<open>stream\<close>, \<open>all_keys\<close>, \<open>attribute\<close>.
\<close>

record groupdict =
  doc :: string
  stream :: "string option"
  all_keys :: string
  attribute :: "string option"

definition bluesky_doc_query_re_match :: "string \<Rightarrow> groupdict option" where
  "bluesky_doc_query_re_match s =
     (if startswith s ''#bluesky/'' then
        (case match_doc (drop 9 s) of
           None \<Rightarrow> None
         | Some (d, st, r) \<Rightarrow>
             (let (ak, r') = match_all_keys r
              in Some \<lparr>doc = d, stream = st, all_keys = ak, attribute = match_attribute r'\<rparr>))
      else None)"

datatype exc =
    TypeError
  | ValueError
  | KeyError
  | AttributeError
  | Exception string

text \<open>The parsed path descriptor: the dictionary of the groups with the entry \<open>keys\<close> added.\<close>

record path_info = groupdict +
  keys :: "string list"

definition parse_bluesky_document_path :: "string \<Rightarrow> exc + path_info" where
  "parse_bluesky_document_path s =
     (case bluesky_doc_query_re_match s of
        None \<Rightarrow> Inl (Exception (''failed to parse '' @ [CHR 0x27] @ s @ [CHR 0x27]))
      | Some m \<Rightarrow>
          Inr \<lparr>doc = (if startswith (doc m) ''desc'' then hd (split_sep CHR ''/'' (doc m))
                      else doc m),
               stream = stream m,
               all_keys = all_keys m,
               attribute = attribute m,
               keys = tl (split_sep CHR ''/'' (all_keys m))\<rparr>)"


section \<open>Python values\<close>

text \<open>
  The values a metadata mapping holds: \<open>None\<close>, booleans, integers, \<open>str\<close>, \<open>bytes\<close>, lists,
  tuples and dictionaries with string keys, in the order of their items. Floating-point
  numbers are left out of the model.
\<close>

datatype pyval =
    PNone
  | PBool bool
  | PInt int
  | PStr string
  | PBytes string
  | PList "pyval list"
  | PTuple "pyval list"
  | PDict "(string \<times> pyval) list"

text \<open>\<open>"k" in d\<close> and \<open>d["k"]\<close> are \<^const>\<open>map_of\<close> on the items.\<close>

definition is_str :: "pyval \<Rightarrow> bool" where
  "is_str v = (case v of PStr _ \<Rightarrow> True | _ \<Rightarrow> False)"

text \<open>
  \<open>isinstance(value, str) or (isinstance(value, Sequence) and all([isinstance(x, str) for x in value]))\<close>:
  lists, tuples and \<open>bytes\<close> are sequences; the items of \<open>bytes\<close> are integers.
\<close>

definition str_or_str_sequence :: "pyval \<Rightarrow> bool" where
  "str_or_str_sequence v =
     (case v of
        PStr _ \<Rightarrow> True
      | PList xs \<Rightarrow> list_all is_str xs
      | PTuple xs \<Rightarrow> list_all is_str xs
      | PBytes b \<Rightarrow> b = []
      | _ \<Rightarrow> False)"

section \<open>\<open>json.dumps\<close>\<close>

text \<open>
  \<open>json.dumps\<close> with its default arguments: \<open>ensure_ascii\<close>, the separators \<open>", "\<close> and
  \<open>": "\<close>. A list and a tuple are both written as a JSON array; \<open>bytes\<close> is not
  serializable and raises \<open>TypeError\<close>.
\<close>

definition hex_digit :: "nat \<Rightarrow> char" where
  "hex_digit n = ''0123456789abcdef'' ! (n mod 16)"

definition escape_char :: "char \<Rightarrow> string" where
  "escape_char c =
     (let n = of_char c :: nat in
      if c = CHR 0x22 then [CHR 0x5C, CHR 0x22]
      else if c = CHR 0x5C then [CHR 0x5C, CHR 0x5C]
      else if c = CHR 0x0A then [CHR 0x5C, CHR ''n'']
      else if c = CHR 0x0D then [CHR 0x5C, CHR ''r'']
      else if c = CHR 0x09 then [CHR 0x5C, CHR ''t'']
      else if c = CHR 0x08 then [CHR 0x5C, CHR ''b'']
      else if c = CHR 0x0C then [CHR 0x5C, CHR ''f'']
      else if 32 \<le> n \<and> n \<le> 126 then [c]
      else [CHR 0x5C, CHR ''u'', CHR ''0'', CHR ''0'', hex_digit (n div 16), hex_digit n])"

definition json_str :: "string \<Rightarrow> string" where
  "json_str s = [CHR 0x22] @ concat (map escape_char s) @ [CHR 0x22]"

function digits :: "nat \<Rightarrow> string" where
  "digits n = (if n < 10 then [char_of (48 + n)] else digits (n div 10) @ [char_of (48 + n mod 10)])"
  by pat_completeness auto
termination
  by (relation "measure id") auto

declare digits.simps [simp del]

definition repr_int :: "int \<Rightarrow> string" where
  "repr_int i = (if i < 0 then CHR ''-'' # digits (nat (- i)) else digits (nat i))"

fun join :: "string \<Rightarrow> string list \<Rightarrow> string" where
  "join sep [] = []"
| "join sep [x] = x"
| "join sep (x # y # ys) = x @ sep @ join sep (y # ys)"

fun json_serializable :: "pyval \<Rightarrow> bool" where
  "json_serializable (PBytes b) = False"
| "json_serializable (PList xs) = list_all json_serializable xs"
| "json_serializable (PTuple xs) = list_all json_serializable xs"
| "json_serializable (PDict m) = list_all (\<lambda>kv. json_serializable (snd kv)) m"
| "json_serializable _ = True"

fun json_text :: "pyval \<Rightarrow> string" where
  "json_text PNone = ''null''"
| "json_text (PBool b) = (if b then ''true'' else ''false'')"
| "json_text (PInt i) = repr_int i"
| "json_text (PStr s) = json_str s"
| "json_text (PBytes b) = []"
| "json_text (PList xs) = ''['' @ join '', '' (map json_text xs) @ '']''"
| "json_text (PTuple xs) = ''['' @ join '', '' (map json_text xs) @ '']''"
| "json_text (PDict m) =
     ''{'' @ join '', '' (map (\<lambda>kv. json_str (fst kv) @ '': '' @ json_text (snd kv)) m) @ ''}''"

definition json_dumps :: "pyval \<Rightarrow> exc + string" where
  "json_dumps v = (if json_serializable v then Inr (json_text v) else Inl TypeError)"


section \<open>The destination file\<close>

text \<open>
  An HDF5 file is a store of objects, addressed by their position in the list; object 0 is
  the root group (\<open>.file\<close>). A group maps member names to addresses, so that a hard link
  (\<open>group[name] = node\<close>) makes two names reach one object. Groups and datasets carry
  attributes. Member names are taken as single link names: \<open>h5py\<close>'s reading of a name
  with slashes as a path is outside the model.
\<close>

datatype h5obj =
    Group "(string \<times> nat) list" "(string \<times> pyval) list"
  | Dataset pyval "(string \<times> pyval) list"

type_synonym h5file = "h5obj list"

fun attrs :: "h5obj \<Rightarrow> (string \<times> pyval) list" where
  "attrs (Group ms as) = as"
| "attrs (Dataset d as) = as"

fun set_attr :: "string \<Rightarrow> pyval \<Rightarrow> h5obj \<Rightarrow> h5obj" where
  "set_attr k v (Group ms as) = Group ms (AList.update k v as)"
| "set_attr k v (Dataset d as) = Dataset d (AList.update k v as)"

definition node :: "h5file \<Rightarrow> nat \<Rightarrow> h5obj option" where
  "node f g = (if g < length f then Some (f ! g) else None)"

text \<open>
  What \<open>h5py\<close> refuses is not in the source, so it is a parameter: for a value given as an
  attribute and for a value given as the data of a dataset, the exception raised, if any.
  Strings are the exception to this: \<open>h5py\<close> stores every \<open>str\<close> as a variable-length
  string and raises \<open>ValueError\<close> on an embedded NUL, as the comment in the dataset copier
  records.
\<close>

record h5py =
  attr_refused :: "pyval \<Rightarrow> exc option"
  data_refused :: "pyval \<Rightarrow> exc option"

fun has_nul :: "pyval \<Rightarrow> bool" where
  "has_nul (PStr s) = (CHR 0x00 \<in> set s)"
| "has_nul (PBytes b) = (CHR 0x00 \<in> set b)"
| "has_nul (PList xs) = list_ex has_nul xs"
| "has_nul (PTuple xs) = list_ex has_nul xs"
| "has_nul _ = False"

definition attr_exc :: "h5py \<Rightarrow> pyval \<Rightarrow> exc option" where
  "attr_exc L v =
     (case v of
        PStr s \<Rightarrow> if has_nul v then Some ValueError else None
      | _ \<Rightarrow> attr_refused L v)"

definition data_exc :: "h5py \<Rightarrow> pyval \<Rightarrow> exc option" where
  "data_exc L v =
     (case v of
        PStr s \<Rightarrow> if has_nul v then Some ValueError else None
      | _ \<Rightarrow> data_refused L v)"

text \<open>\<open>node[name]\<close>: a member of a group; a dataset has no members.\<close>

definition h5_getitem :: "h5file \<Rightarrow> nat \<Rightarrow> string \<Rightarrow> exc + nat" where
  "h5_getitem f g name =
     (case node f g of
        Some (Group ms as) \<Rightarrow>
          (case map_of ms name of None \<Rightarrow> Inl KeyError | Some t \<Rightarrow> Inr t)
      | _ \<Rightarrow> Inl ValueError)"

text \<open>\<open>node[name] = target\<close>: a hard link in a group, under a name not yet taken.\<close>

definition h5_setitem :: "h5file \<Rightarrow> nat \<Rightarrow> string \<Rightarrow> nat \<Rightarrow> exc + h5file" where
  "h5_setitem f g name t =
     (case node f g of
        Some (Group ms as) \<Rightarrow>
          (case map_of ms name of
             None \<Rightarrow> Inr (f[g := Group (ms @ [(name, t)]) as])
           | Some _ \<Rightarrow> Inl ValueError)
      | _ \<Rightarrow> Inl ValueError)"

text \<open>\<open>node.attrs[name] = value\<close>: on a group or a dataset; an attribute of that name is replaced.\<close>

definition h5_attrs_setitem :: "h5py \<Rightarrow> h5file \<Rightarrow> nat \<Rightarrow> string \<Rightarrow> pyval \<Rightarrow> exc + h5file" where
  "h5_attrs_setitem L f g name v =
     (case node f g of
        None \<Rightarrow> Inl ValueError
      | Some obj \<Rightarrow>
          (case attr_exc L v of
             Some e \<Rightarrow> Inl e
           | None \<Rightarrow> Inr (f[g := set_attr name v obj])))"

text \<open>
  \<open>node.create_group(name)\<close> and \<open>node.create_dataset(name, data)\<close>: a dataset has neither
  method (\<open>AttributeError\<close>); the new object is put at the end of the store and returned.
\<close>

definition add_member :: "h5file \<Rightarrow> nat \<Rightarrow> string \<Rightarrow> h5obj \<Rightarrow> exc + h5file \<times> nat" where
  "add_member f g name obj =
     (case node f g of
        Some (Group ms as) \<Rightarrow>
          (case map_of ms name of
             None \<Rightarrow> Inr (f[g := Group (ms @ [(name, length f)]) as] @ [obj], length f)
           | Some _ \<Rightarrow> Inl ValueError)
      | Some (Dataset d as) \<Rightarrow> Inl AttributeError
      | None \<Rightarrow> Inl ValueError)"

definition h5_create_group :: "h5file \<Rightarrow> nat \<Rightarrow> string \<Rightarrow> exc + h5file \<times> nat" where
  "h5_create_group f g name = add_member f g name (Group [] [])"

definition h5_create_dataset :: "h5py \<Rightarrow> h5file \<Rightarrow> nat \<Rightarrow> string \<Rightarrow> pyval \<Rightarrow> exc + h5file \<times> nat" where
  "h5_create_dataset L f g name v =
     (case node f g of
        Some (Dataset d as) \<Rightarrow> Inl AttributeError
      | _ \<Rightarrow>
          (case data_exc L v of
             Some e \<Rightarrow> Inl e
           | None \<Rightarrow> add_member f g name (Dataset v [])))"

text \<open>
  \<open>node.create_dataset(name, data=np.array(value, dtype=h5py.string_dtype()))\<close>, for a string
  or a sequence of strings: stored as variable-length strings, which hold no NUL.
\<close>

definition h5_create_string_dataset :: "h5file \<Rightarrow> nat \<Rightarrow> string \<Rightarrow> pyval \<Rightarrow> exc + h5file \<times> nat" where
  "h5_create_string_dataset f g name v =
     (case node f g of
        Some (Dataset d as) \<Rightarrow> Inl AttributeError
      | _ \<Rightarrow>
          (if has_nul v then Inl ValueError
           else add_member f g name (Dataset v [])))"

section \<open>The reference resolver\<close>

fun traverse :: "h5file \<Rightarrow> nat \<Rightarrow> string list \<Rightarrow> exc + nat" where
  "traverse f g [] = Inr g"
| "traverse f g (k # ks) =
     (case h5_getitem f g k of Inl e \<Rightarrow> Inl e | Inr t \<Rightarrow> traverse f t ks)"

text \<open>\<open>_get_h5_group_or_dataset\<close>: \<open>h5_file["bluesky"][doc]\<close>, then one lookup for each key.\<close>

definition get_h5_group_or_dataset :: "path_info \<Rightarrow> h5file \<Rightarrow> exc + nat" where
  "get_h5_group_or_dataset p f =
     (case h5_getitem f 0 ''bluesky'' of
        Inl e \<Rightarrow> Inl e
      | Inr b \<Rightarrow>
          (case h5_getitem f b (doc p) of
             Inl e \<Rightarrow> Inl e
           | Inr t \<Rightarrow> traverse f t (keys p)))"

section \<open>The tree interpreter\<close>

text \<open>The argument of \<open>_parse_bluesky_document_path\<close> is matched by the pattern: a \<open>str\<close>.\<close>

definition parse_value :: "pyval \<Rightarrow> exc + path_info" where
  "parse_value v = (case v of PStr s \<Rightarrow> parse_bluesky_document_path s | _ \<Rightarrow> Inl TypeError)"

definition resolve_link :: "pyval \<Rightarrow> h5file \<Rightarrow> exc + nat" where
  "resolve_link v f =
     (case parse_value v of Inl e \<Rightarrow> Inl e | Inr p \<Rightarrow> get_h5_group_or_dataset p f)"

text \<open>The loop over the items of \<open>_attributes\<close>.\<close>

fun set_attributes :: "h5py \<Rightarrow> (string \<times> pyval) list \<Rightarrow> nat \<Rightarrow> h5file \<Rightarrow> exc + h5file" where
  "set_attributes L [] g f = Inr f"
| "set_attributes L ((k, v) # rest) g f =
     (case h5_attrs_setitem L f g k v of
        Inl e \<Rightarrow> Inl e
      | Inr f' \<Rightarrow> set_attributes L rest g f')"

text \<open>
  \<open>_copy_nexus_md_to_nexus_h5\<close>: the loop over the items of \<open>nexus_md\<close>, the branches in
  the order of the source.
\<close>

function copy_nexus_md_to_nexus_h5 :: "h5py \<Rightarrow> (string \<times> pyval) list \<Rightarrow> nat \<Rightarrow> h5file \<Rightarrow> exc + h5file" where
  "copy_nexus_md_to_nexus_h5 L [] g f = Inr f"
| "copy_nexus_md_to_nexus_h5 L ((k, v) # rest) g f =
     (if k = ''_data'' \<or> k = ''_link'' then copy_nexus_md_to_nexus_h5 L rest g f
      else if k = ''_attributes'' then
        (case v of
           PDict as \<Rightarrow>
             (case set_attributes L as g f of
                Inl e \<Rightarrow> Inl e
              | Inr f1 \<Rightarrow> copy_nexus_md_to_nexus_h5 L rest g f1)
         | _ \<Rightarrow> Inl AttributeError)
      else
        (case v of
           PDict m \<Rightarrow>
             (case map_of m ''_link'' of
                Some l \<Rightarrow>
                  (case resolve_link l f of
                     Inl e \<Rightarrow> Inl e
                   | Inr t \<Rightarrow>
                       (case h5_setitem f g k t of
                          Inl e \<Rightarrow> Inl e
                        | Inr f1 \<Rightarrow>
                            (case h5_getitem f1 g k of
                               Inl e \<Rightarrow> Inl e
                             | Inr t' \<Rightarrow>
                                 (case copy_nexus_md_to_nexus_h5 L m t' f1 of
                                    Inl e \<Rightarrow> Inl e
                                  | Inr f2 \<Rightarrow> copy_nexus_md_to_nexus_h5 L rest g f2))))
              | None \<Rightarrow>
                  (case map_of m ''_data'' of
                     Some d \<Rightarrow>
                       (case h5_create_dataset L f g k d of
                          Inl e \<Rightarrow> Inl e
                        | Inr (f1, t) \<Rightarrow>
                            (case h5_getitem f1 g k of
                               Inl e \<Rightarrow> Inl e
                             | Inr t' \<Rightarrow>
                                 (case copy_nexus_md_to_nexus_h5 L m t' f1 of
                                    Inl e \<Rightarrow> Inl e
                                  | Inr f2 \<Rightarrow> copy_nexus_md_to_nexus_h5 L rest g f2)))
                   | None \<Rightarrow>
                       (case h5_create_group f g k of
                          Inl e \<Rightarrow> Inl e
                        | Inr (f1, t) \<Rightarrow>
                            (case copy_nexus_md_to_nexus_h5 L m t f1 of
                               Inl e \<Rightarrow> Inl e
                             | Inr f2 \<Rightarrow> copy_nexus_md_to_nexus_h5 L rest g f2))))
         | PStr s \<Rightarrow>
             (if startswith s ''#bluesky'' then
                (case resolve_link v f of
                   Inl e \<Rightarrow> Inl e
                 | Inr t \<Rightarrow>
                     (case h5_setitem f g k t of
                        Inl e \<Rightarrow> Inl e
                      | Inr f1 \<Rightarrow> copy_nexus_md_to_nexus_h5 L rest g f1))
              else
                (case h5_create_dataset L f g k v of
                   Inl e \<Rightarrow> Inl e
                 | Inr (f1, t) \<Rightarrow> copy_nexus_md_to_nexus_h5 L rest g f1))
         | _ \<Rightarrow>
             (case h5_create_dataset L f g k v of
                Inl e \<Rightarrow> Inl e
              | Inr (f1, t) \<Rightarrow> copy_nexus_md_to_nexus_h5 L rest g f1)))"
  by pat_completeness auto
termination
  by (relation "measure (\<lambda>(L, m, g, f). size (PDict m))") auto

declare copy_nexus_md_to_nexus_h5.simps [simp del]

section \<open>The attribute copier and the dataset copier\<close>

text \<open>
  \<open>_copy_metadata_to_h5_attrs\<close>: a mapping becomes a group; any other value becomes an
  attribute, \<open>None\<close> as the string \<open>"None"\<close>; on \<open>TypeError\<close> the attribute is set to the
  JSON text of the value instead. An exception raised in the handler is not caught.
\<close>

function copy_metadata_to_h5_attrs :: "h5py \<Rightarrow> (string \<times> pyval) list \<Rightarrow> nat \<Rightarrow> h5file \<Rightarrow> exc + h5file" where
  "copy_metadata_to_h5_attrs L [] g f = Inr f"
| "copy_metadata_to_h5_attrs L ((k, v) # rest) g f =
     (case v of
        PDict m \<Rightarrow>
          (case h5_create_group f g k of
             Inl e \<Rightarrow> Inl e
           | Inr (f1, t) \<Rightarrow>
               (case copy_metadata_to_h5_attrs L m t f1 of
                  Inl e \<Rightarrow> Inl e
                | Inr f2 \<Rightarrow> copy_metadata_to_h5_attrs L rest g f2))
      | _ \<Rightarrow>
          (let val = (if v = PNone then PStr ''None'' else v) in
           case h5_attrs_setitem L f g k val of
             Inr f1 \<Rightarrow> copy_metadata_to_h5_attrs L rest g f1
           | Inl e \<Rightarrow>
               if e = TypeError then
                 (case json_dumps val of
                    Inl e' \<Rightarrow> Inl e'
                  | Inr js \<Rightarrow>
                      (case h5_attrs_setitem L f g k (PStr js) of
                         Inl e' \<Rightarrow> Inl e'
                       | Inr f1 \<Rightarrow> copy_metadata_to_h5_attrs L rest g f1))
               else Inl e))"
  by pat_completeness auto
termination
  by (relation "measure (\<lambda>(L, m, g, f). size (PDict m))") auto

declare copy_metadata_to_h5_attrs.simps [simp del]

text \<open>
  \<open>_copy_metadata_to_h5_datasets\<close>: \<open>None\<close> becomes \<open>"None"\<close> and the single NUL byte the
  empty string; a string or a sequence of strings is stored as variable-length strings,
  any other value as it is; on \<open>TypeError\<close> the JSON text of the value is stored; every other
  exception is logged and raised again. Logging is not modelled.
\<close>

definition normalize_leaf :: "pyval \<Rightarrow> pyval" where
  "normalize_leaf v =
     (if v = PNone then PStr ''None''
      else if v = PBytes [CHR 0x00] then PStr []
      else v)"

definition create_leaf_dataset :: "h5py \<Rightarrow> h5file \<Rightarrow> nat \<Rightarrow> string \<Rightarrow> pyval \<Rightarrow> exc + h5file \<times> nat" where
  "create_leaf_dataset L f g k val =
     (case (if str_or_str_sequence val then h5_create_string_dataset f g k val
            else h5_create_dataset L f g k val) of
        Inr r \<Rightarrow> Inr r
      | Inl e \<Rightarrow>
          if e = TypeError then
            (case json_dumps val of
               Inl e' \<Rightarrow> Inl e'
             | Inr js \<Rightarrow> h5_create_string_dataset f g k (PStr js))
          else Inl e)"

function copy_metadata_to_h5_datasets :: "h5py \<Rightarrow> (string \<times> pyval) list \<Rightarrow> nat \<Rightarrow> h5file \<Rightarrow> exc + h5file" where
  "copy_metadata_to_h5_datasets L [] g f = Inr f"
| "copy_metadata_to_h5_datasets L ((k, v) # rest) g f =
     (case v of
        PDict m \<Rightarrow>
          (case h5_create_group f g k of
             Inl e \<Rightarrow> Inl e
           | Inr (f1, t) \<Rightarrow>
               (case copy_metadata_to_h5_datasets L m t f1 of
                  Inl e \<Rightarrow> Inl e
                | Inr f2 \<Rightarrow> copy_metadata_to_h5_datasets L rest g f2))
      | _ \<Rightarrow>
          (case create_leaf_dataset L f g k (normalize_leaf v) of
             Inl e \<Rightarrow> Inl e
           | Inr (f1, t) \<Rightarrow> copy_metadata_to_h5_datasets L rest g f1))"
  by pat_completeness auto
termination
  by (relation "measure (\<lambda>(L, m, g, f). size (PDict m))") auto

declare copy_metadata_to_h5_datasets.simps [simp del]

section \<open>The grammar of reference strings\<close>

text \<open>
  The grammar as the specification words it, \<open>#bluesky/<kind>[/<stream>](/<segment>)*[@<attr>]\<close>:
  the string built from a kind, an optional stream, the segments and an optional attribute,
  and when these parts are well-formed (\<open>start\<close> and \<open>stop\<close> take no stream, \<open>desc\<close> takes one).
\<close>

definition key_text :: "string list \<Rightarrow> string" where
  "key_text ks = concat (map ((#) CHR ''/'') ks)"

definition ref_string :: "string \<Rightarrow> string option \<Rightarrow> string list \<Rightarrow> string option \<Rightarrow> string" where
  "ref_string kind strm segs attr =
     ''#bluesky/'' @ kind @ (case strm of None \<Rightarrow> [] | Some s \<Rightarrow> CHR ''/'' # s)
       @ key_text segs @ (case attr of None \<Rightarrow> [] | Some a \<Rightarrow> CHR ''@'' # a)"

definition valid_ref :: "string \<Rightarrow> string option \<Rightarrow> string list \<Rightarrow> string option \<Rightarrow> bool" where
  "valid_ref kind strm segs attr \<longleftrightarrow>
     (case strm of None \<Rightarrow> kind = ''start'' \<or> kind = ''stop'' | Some s \<Rightarrow> kind = ''desc'' \<and> word s)
     \<and> list_all word segs
     \<and> (case attr of None \<Rightarrow> True | Some a \<Rightarrow> word a)"

definition stops :: "string \<Rightarrow> bool" where
  "stops r = (case r of [] \<Rightarrow> True | c # _ \<Rightarrow> \<not> word_char c)"

section \<open>Example files\<close>

text \<open>
  A destination file that holds the dataset \<open>/bluesky/start/sample_name\<close> with the value
  \<open>"Sample A"\<close>, and the metadata tree of the end-to-end example.
\<close>

definition sample_file :: h5file where
  "sample_file =
     [Group [(''bluesky'', 1)] [],
      Group [(''start'', 2)] [],
      Group [(''sample_name'', 3)] [],
      Dataset (PStr ''Sample A'') []]"

definition entry_tree :: "(string \<times> pyval) list" where
  "entry_tree =
     [(''entry'', PDict [(''_attributes'', PDict [(''NX_Class'', PStr ''NXEntry'')]),
                         (''title'', PStr ''#bluesky/start/sample_name'')])]"

text \<open>
  A destination file that holds the dataset \<open>/bluesky/desc/primary/k1\<close>, and one that holds
  a dataset \<open>/bluesky/desc/k1\<close> beside it.
\<close>

definition desc_file :: h5file where
  "desc_file =
     [Group [(''bluesky'', 1)] [],
      Group [(''desc'', 2)] [],
      Group [(''primary'', 3)] [],
      Group [(''k1'', 4)] [],
      Dataset (PInt 1) []]"

definition desc_file2 :: h5file where
  "desc_file2 =
     [Group [(''bluesky'', 1)] [],
      Group [(''desc'', 2)] [],
      Group [(''primary'', 3), (''k1'', 5)] [],
      Group [(''k1'', 4)] [],
      Dataset (PInt 1) [],
      Dataset (PInt 2) []]"

text \<open>A library that refuses nothing, and one that refuses lists, tuples and mappings with \<open>TypeError\<close>.\<close>

definition accept_all :: h5py where
  "accept_all = \<lparr>attr_refused = (\<lambda>v. None), data_refused = (\<lambda>v. None)\<rparr>"

definition refuse_nested :: h5py where
  "refuse_nested =
     \<lparr>attr_refused = (\<lambda>v. case v of PList _ \<Rightarrow> Some TypeError | PTuple _ \<Rightarrow> Some TypeError
                           | PDict _ \<Rightarrow> Some TypeError | _ \<Rightarrow> None),
      data_refused = (\<lambda>v. case v of PList _ \<Rightarrow> Some TypeError | PTuple _ \<Rightarrow> Some TypeError
                           | PDict _ \<Rightarrow> Some TypeError | _ \<Rightarrow> None)\<rparr>"

section \<open>Auxiliary notions for the interpreter\<close>

text \<open>The keys the interpreter reserves, and the attributes a mapping lists under \<open>_attributes\<close>.\<close>

definition reserved :: "string \<Rightarrow> bool" where
  "reserved k \<longleftrightarrow> k = ''_data'' \<or> k = ''_link'' \<or> k = ''_attributes''"

fun listed_attrs :: "(string \<times> pyval) list \<Rightarrow> (string \<times> pyval) list" where
  "listed_attrs [] = []"
| "listed_attrs ((k, v) # rest) =
     (if k = ''_attributes'' then (case v of PDict as \<Rightarrow> as | _ \<Rightarrow> []) else []) @ listed_attrs rest"

section \<open>Auxiliary notions for the two copiers\<close>

text \<open>
  The two copiers have one shape: a mapping becomes a new group and is copied into it, any
  other value is handed to the copier's own treatment of a leaf. \<open>copy_leaves\<close> is that
  shape with the treatment of a leaf as a parameter; the two copiers are shown below to be
  its instances.
\<close>

function copy_leaves ::
  "(h5file \<Rightarrow> nat \<Rightarrow> string \<Rightarrow> pyval \<Rightarrow> exc + h5file) \<Rightarrow> (string \<times> pyval) list \<Rightarrow> nat \<Rightarrow> h5file
    \<Rightarrow> exc + h5file" where
  "copy_leaves leaf [] g f = Inr f"
| "copy_leaves leaf ((k, v) # rest) g f =
     (case v of
        PDict m \<Rightarrow>
          (case h5_create_group f g k of
             Inl e \<Rightarrow> Inl e
           | Inr (f1, t) \<Rightarrow>
               (case copy_leaves leaf m t f1 of
                  Inl e \<Rightarrow> Inl e
                | Inr f2 \<Rightarrow> copy_leaves leaf rest g f2))
      | _ \<Rightarrow>
          (case leaf f g k v of
             Inl e \<Rightarrow> Inl e
           | Inr f1 \<Rightarrow> copy_leaves leaf rest g f1))"
  by pat_completeness auto
termination
  by (relation "measure (\<lambda>(leaf, m, g, f). size (PDict m))") auto

declare copy_leaves.simps [simp del]

definition attr_leaf :: "h5py \<Rightarrow> h5file \<Rightarrow> nat \<Rightarrow> string \<Rightarrow> pyval \<Rightarrow> exc + h5file" where
  "attr_leaf L f g k v =
     (let val = (if v = PNone then PStr ''None'' else v) in
      case h5_attrs_setitem L f g k val of
        Inr f1 \<Rightarrow> Inr f1
      | Inl e \<Rightarrow>
          if e = TypeError then
            (case json_dumps val of
               Inl e' \<Rightarrow> Inl e'
             | Inr js \<Rightarrow> h5_attrs_setitem L f g k (PStr js))
          else Inl e)"

definition dataset_leaf :: "h5py \<Rightarrow> h5file \<Rightarrow> nat \<Rightarrow> string \<Rightarrow> pyval \<Rightarrow> exc + h5file" where
  "dataset_leaf L f g k v =
     (case create_leaf_dataset L f g k (normalize_leaf v) of
        Inl e \<Rightarrow> Inl e
      | Inr (f1, t) \<Rightarrow> Inr f1)"

text \<open>
  A flat metadata mapping: the value at a path of keys, and the well-formedness of a Python
  dictionary, whose keys are distinct at every level.
\<close>

definition is_mapping :: "pyval \<Rightarrow> bool" where
  "is_mapping v = (case v of PDict _ \<Rightarrow> True | _ \<Rightarrow> False)"

fun lookup_path :: "(string \<times> pyval) list \<Rightarrow> string list \<Rightarrow> pyval option" where
  "lookup_path m [] = None"
| "lookup_path m [k] = map_of m k"
| "lookup_path m (k # k' # ks) =
     (case map_of m k of
        Some (PDict m') \<Rightarrow> lookup_path m' (k' # ks)
      | _ \<Rightarrow> None)"

fun distinct_keys :: "pyval \<Rightarrow> bool" where
  "distinct_keys (PDict m) = (distinct (map fst m) \<and> list_all (\<lambda>kv. distinct_keys (snd kv)) m)"
| "distinct_keys (PList xs) = list_all distinct_keys xs"
| "distinct_keys (PTuple xs) = list_all distinct_keys xs"
| "distinct_keys _ = True"

text \<open>
  The members of an object; a part of the store whose members all lie in it; and how a copy
  into the group \<open>g\<close> changes the store: it adds objects, which form such a part, changes no
  old object but \<open>g\<close>, and keeps the members \<open>g\<close> had.
\<close>

fun members :: "h5obj \<Rightarrow> (string \<times> nat) list" where
  "members (Group ms as) = ms"
| "members (Dataset d as) = []"

definition region_closed :: "h5file \<Rightarrow> nat \<Rightarrow> nat \<Rightarrow> bool" where
  "region_closed f lo hi \<longleftrightarrow>
     (\<forall>i n t. lo \<le> i \<and> i < hi \<and> map_of (members (f ! i)) n = Some t \<longrightarrow> lo \<le> t \<and> t < hi)"

definition grows :: "nat \<Rightarrow> h5file \<Rightarrow> h5file \<Rightarrow> bool" where
  "grows g f f' \<longleftrightarrow>
     length f \<le> length f'
     \<and> (\<forall>i < length f. i \<noteq> g \<longrightarrow> f' ! i = f ! i)
     \<and> region_closed f' (length f) (length f')
     \<and> (\<forall>n t. map_of (members (f ! g)) n = Some t \<longrightarrow> map_of (members (f' ! g)) n = Some t)
     \<and> (\<forall>n t. map_of (members (f' ! g)) n = Some t \<longrightarrow>
           map_of (members (f ! g)) n = Some t \<or> (length f \<le> t \<and> t < length f'))"

section \<open>What a copier stores for a leaf\<close>

text \<open>
  The value the dataset copier stores for a leaf in a group where the name is free, or the
  exception it raises: the normalised value through the string branch or as it is, and
  the JSON text of the normalised value after a \<open>TypeError\<close>. Likewise the value the
  attribute copier stores. Both are read off \<open>create_leaf_dataset\<close> and \<open>attr_leaf\<close> and are
  shown below to agree with them.
\<close>

definition leaf_data :: "h5py \<Rightarrow> pyval \<Rightarrow> exc + pyval" where
  "leaf_data L v =
     (let val = normalize_leaf v in
      if str_or_str_sequence val then (if has_nul val then Inl ValueError else Inr val)
      else
        (case data_exc L val of
           None \<Rightarrow> Inr val
         | Some e \<Rightarrow>
             if e = TypeError then
               (case json_dumps val of
                  Inl e' \<Rightarrow> Inl e'
                | Inr js \<Rightarrow> if has_nul (PStr js) then Inl ValueError else Inr (PStr js))
             else Inl e))"

definition leaf_attr :: "h5py \<Rightarrow> pyval \<Rightarrow> exc + pyval" where
  "leaf_attr L v =
     (let val = (if v = PNone then PStr ''None'' else v) in
      case attr_exc L val of
        None \<Rightarrow> Inr val
      | Some e \<Rightarrow>
          if e = TypeError then
            (case json_dumps val of
               Inl e' \<Rightarrow> Inl e'
             | Inr js \<Rightarrow>
                 (case attr_exc L (PStr js) of None \<Rightarrow> Inr (PStr js) | Some e' \<Rightarrow> Inl e'))
          else Inl e)"

text \<open>The group \<open>h\<close> has a member \<open>k\<close> that is a dataset with the data \<open>d\<close> and no attribute.\<close>

definition holds_dataset :: "h5file \<Rightarrow> nat \<Rightarrow> string \<Rightarrow> pyval \<Rightarrow> bool" where
  "holds_dataset f h k d =
     (case map_of (members (f ! h)) k of
        None \<Rightarrow> False
      | Some c \<Rightarrow> c < length f \<and> f ! c = Dataset d [])"

section \<open>Tuples and lists\<close>

text \<open>The value with every tuple replaced by the list of its items.\<close>

fun listify :: "pyval \<Rightarrow> pyval" where
  "listify (PList xs) = PList (map listify xs)"
| "listify (PTuple xs) = PList (map listify xs)"
| "listify (PDict m) = PDict (map (\<lambda>kv. (fst kv, listify (snd kv))) m)"
| "listify v = v"

text \<open>A value that holds no tuple, at any depth.\<close>

fun tuple_free :: "pyval \<Rightarrow> bool" where
  "tuple_free (PTuple xs) = False"
| "tuple_free (PList xs) = list_all tuple_free xs"
| "tuple_free (PDict m) = list_all (\<lambda>kv. tuple_free (snd kv)) m"
| "tuple_free v = True"

section \<open>\<open>json.loads\<close>\<close>

text \<open>
  \<open>json.loads\<close> with its default arguments, on the values of the model: the result is
  \<open>None\<close> where the decoder raises and where the document holds a value the model leaves
  out (a floating-point number, a character beyond the 8-bit range). White space is
  skipped between the tokens; a string may hold no control character; a number has no
  leading zero; an object becomes a dictionary, in which a repeated key keeps its place and
  takes the last value. The recursion runs on fuel; \<open>json_loads\<close> gives it more than the
  length of the text, and each call reads at least one character.
\<close>

definition is_ws :: "char \<Rightarrow> bool" where
  "is_ws c \<longleftrightarrow> c = CHR '' '' \<or> c = CHR 0x09 \<or> c = CHR 0x0A \<or> c = CHR 0x0D"

definition skip_ws :: "string \<Rightarrow> string" where
  "skip_ws s = dropWhile is_ws s"

definition is_digit :: "char \<Rightarrow> bool" where
  "is_digit c \<longleftrightarrow> (let n = of_char c :: nat in 48 \<le> n \<and> n \<le> 57)"

definition hex_val :: "char \<Rightarrow> nat option" where
  "hex_val c =
     (let n = of_char c :: nat in
      if 48 \<le> n \<and> n \<le> 57 then Some (n - 48)
      else if 97 \<le> n \<and> n \<le> 102 then Some (n - 87)
      else if 65 \<le> n \<and> n \<le> 70 then Some (n - 55)
      else None)"

definition hex4 :: "char \<Rightarrow> char \<Rightarrow> char \<Rightarrow> char \<Rightarrow> nat option" where
  "hex4 a b c d =
     (case (hex_val a, hex_val b, hex_val c, hex_val d) of
        (Some w, Some x, Some y, Some z) \<Rightarrow> Some (((w * 16 + x) * 16 + y) * 16 + z)
      | _ \<Rightarrow> None)"

definition unescape :: "char \<Rightarrow> char option" where
  "unescape e =
     (if e = CHR 0x22 then Some CHR 0x22
      else if e = CHR 0x5C then Some CHR 0x5C
      else if e = CHR ''/'' then Some CHR ''/''
      else if e = CHR ''b'' then Some CHR 0x08
      else if e = CHR ''f'' then Some CHR 0x0C
      else if e = CHR ''n'' then Some CHR 0x0A
      else if e = CHR ''r'' then Some CHR 0x0D
      else if e = CHR ''t'' then Some CHR 0x09
      else None)"

definition cons_result :: "char \<Rightarrow> (string \<times> string) option \<Rightarrow> (string \<times> string) option" where
  "cons_result c res = (case res of None \<Rightarrow> None | Some (s, r) \<Rightarrow> Some (c # s, r))"

text \<open>The text of a string after its opening quote: the string and the rest of the input.\<close>

fun scan_string :: "string \<Rightarrow> (string \<times> string) option" where
  "scan_string [] = None"
| "scan_string (c # r) =
     (if c = CHR 0x22 then Some ([], r)
      else if c = CHR 0x5C then
        (case r of
           [] \<Rightarrow> None
         | e # r1 \<Rightarrow>
             if e = CHR ''u'' then
               (case r1 of
                  h1 # h2 # h3 # h4 # r2 \<Rightarrow>
                    (case hex4 h1 h2 h3 h4 of
                       None \<Rightarrow> None
                     | Some n \<Rightarrow> if n < 256 then cons_result (char_of n) (scan_string r2) else None)
                | _ \<Rightarrow> None)
             else
               (case unescape e of
                  None \<Rightarrow> None
                | Some x \<Rightarrow> cons_result x (scan_string r1)))
      else if (of_char c :: nat) < 32 then None
      else cons_result c (scan_string r))"

definition nat_of_digits :: "string \<Rightarrow> nat" where
  "nat_of_digits ds = foldl (\<lambda>a c. 10 * a + (of_char c - 48)) 0 ds"

text \<open>
  A number: an optional sign, then \<open>0\<close> or a run of digits that begins with none; a fraction
  or an exponent after it makes a floating-point number, or a malformed document.
\<close>

definition scan_number :: "string \<Rightarrow> (pyval \<times> string) option" where
  "scan_number s =
     (let neg = (case s of [] \<Rightarrow> False | c # _ \<Rightarrow> c = CHR ''-'');
          s1 = (if neg then tl s else s);
          ds = (case s1 of [] \<Rightarrow> [] | c # _ \<Rightarrow> if c = CHR ''0'' then [c] else takeWhile is_digit s1);
          r = drop (length ds) s1
      in if ds = [] then None
         else if (case r of [] \<Rightarrow> False | c # _ \<Rightarrow> c = CHR ''.'' \<or> c = CHR ''e'' \<or> c = CHR ''E'') then None
         else Some (PInt (if neg then - int (nat_of_digits ds) else int (nat_of_digits ds)), r))"

definition dict_of :: "(string \<times> pyval) list \<Rightarrow> (string \<times> pyval) list" where
  "dict_of ps = fold (\<lambda>kv. AList.update (fst kv) (snd kv)) ps []"

fun scan_value :: "nat \<Rightarrow> string \<Rightarrow> (pyval \<times> string) option"
  and scan_array_tail :: "nat \<Rightarrow> string \<Rightarrow> (pyval list \<times> string) option"
  and scan_member :: "nat \<Rightarrow> string \<Rightarrow> ((string \<times> pyval) list \<times> string) option"
  and scan_object_tail :: "nat \<Rightarrow> string \<Rightarrow> ((string \<times> pyval) list \<times> string) option"
where
  "scan_value 0 s = None"
| "scan_value (Suc n) s =
     (case s of
        [] \<Rightarrow> None
      | c # r \<Rightarrow>
          if c = CHR 0x22 then
            (case scan_string r of None \<Rightarrow> None | Some (x, t) \<Rightarrow> Some (PStr x, t))
          else if c = CHR ''['' then
            (if startswith (skip_ws r) '']'' then Some (PList [], tl (skip_ws r))
             else
               (case scan_value n (skip_ws r) of
                  None \<Rightarrow> None
                | Some (v, t) \<Rightarrow>
                    (case scan_array_tail n t of
                       None \<Rightarrow> None
                     | Some (vs, t') \<Rightarrow> Some (PList (v # vs), t'))))
          else if c = CHR ''{'' then
            (if startswith (skip_ws r) ''}'' then Some (PDict [], tl (skip_ws r))
             else
               (case scan_member n (skip_ws r) of
                  None \<Rightarrow> None
                | Some (ps, t) \<Rightarrow> Some (PDict (dict_of ps), t)))
          else if startswith s ''null'' then Some (PNone, drop 4 s)
          else if startswith s ''true'' then Some (PBool True, drop 4 s)
          else if startswith s ''false'' then Some (PBool False, drop 5 s)
          else scan_number s)"
| "scan_array_tail 0 s = None"
| "scan_array_tail (Suc n) s =
     (case skip_ws s of
        [] \<Rightarrow> None
      | c # r \<Rightarrow>
          if c = CHR '']'' then Some ([], r)
          else if c = CHR '','' then
            (case scan_value n (skip_ws r) of
               None \<Rightarrow> None
             | Some (v, t) \<Rightarrow>
                 (case scan_array_tail n t of
                    None \<Rightarrow> None
                  | Some (vs, t') \<Rightarrow> Some (v # vs, t')))
          else None)"
| "scan_member 0 s = None"
| "scan_member (Suc n) s =
     (case s of
        [] \<Rightarrow> None
      | c # r \<Rightarrow>
          if c = CHR 0x22 then
            (case scan_string r of
               None \<Rightarrow> None
             | Some (key, r1) \<Rightarrow>
                 if startswith (skip_ws r1) '':'' then
                   (case scan_value n (skip_ws (tl (skip_ws r1))) of
                      None \<Rightarrow> None
                    | Some (v, t) \<Rightarrow>
                        (case scan_object_tail n t of
                           None \<Rightarrow> None
                         | Some (ps, t') \<Rightarrow> Some ((key, v) # ps, t')))
                 else None)
          else None)"
| "scan_object_tail 0 s = None"
| "scan_object_tail (Suc n) s =
     (case skip_ws s of
        [] \<Rightarrow> None
      | c # r \<Rightarrow>
          if c = CHR ''}'' then Some ([], r)
          else if c = CHR '','' then scan_member n (skip_ws r)
          else None)"

definition json_loads :: "string \<Rightarrow> pyval option" where
  "json_loads s =
     (case scan_value (Suc (length s)) (skip_ws s) of
        None \<Rightarrow> None
      | Some (v, r) \<Rightarrow> if skip_ws r = [] then Some v else None)"

section \<open>Auxiliary notions for the JSON text\<close>

text \<open>
  What may follow a value inside a document, the characters a value begins with, and the
  text of the items of an array after the first, each with its separator.
\<close>

definition ok_rest :: "string \<Rightarrow> bool" where
  "ok_rest r = (case r of [] \<Rightarrow> True | c # _ \<Rightarrow> c = CHR '','' \<or> c = CHR '']'' \<or> c = CHR ''}'')"

definition value_start :: "char \<Rightarrow> bool" where
  "value_start c \<longleftrightarrow> c = CHR ''n'' \<or> c = CHR ''t'' \<or> c = CHR ''f'' \<or> c = CHR 0x22 \<or> c = CHR ''[''
     \<or> c = CHR ''{'' \<or> c = CHR ''-'' \<or> is_digit c"

definition tail_text :: "string list \<Rightarrow> string" where
  "tail_text xs = concat (map ((@) '', '') xs)"

section \<open>Properties of the regular expression\<close>

lemma key_text_simps [simp]:
  "key_text [] = []" "key_text (k # ks) = CHR ''/'' # k @ key_text ks"
  by (simp_all add: key_text_def)

lemma key_text_append [simp]: "key_text (xs @ ys) = key_text xs @ key_text ys"
  by (simp add: key_text_def)

lemma not_word_char_slash [simp]: "\<not> word_char CHR ''/''"
  by (simp add: word_char_def)

lemma not_word_char_at [simp]: "\<not> word_char CHR ''@''"
  by (simp add: word_char_def)

lemma takeWhile_word_run:
  "list_all word_char w \<Longrightarrow> stops r \<Longrightarrow> takeWhile word_char (w @ r) = w"
  by (cases r) (auto simp: stops_def list_all_iff takeWhile_append2 takeWhile_append1)

lemma dropWhile_word_run:
  "list_all word_char w \<Longrightarrow> stops r \<Longrightarrow> dropWhile word_char (w @ r) = r"
  by (cases r) (auto simp: stops_def list_all_iff dropWhile_append2)

lemma stops_simps [simp]: "stops []" "stops (c # r) = (\<not> word_char c)"
  by (simp_all add: stops_def)

lemma match_all_keys_stop:
  "(case r of [] \<Rightarrow> True | c # t \<Rightarrow> c \<noteq> CHR ''/'' \<or> takeWhile word_char t = []) \<Longrightarrow> match_all_keys r = ([], r)"
  by (subst match_all_keys.simps) (auto split: list.splits)

lemma match_all_keys_text:
  "list_all word ks \<Longrightarrow> stops r \<Longrightarrow> match_all_keys r = ([], r) \<Longrightarrow>
   match_all_keys (key_text ks @ r) = (key_text ks, r)"
proof (induction ks)
  case Nil
  then show ?case by simp
next
  case (Cons k ks)
  have k: "k \<noteq> []" "list_all word_char k" using Cons.prems(1) by (simp_all add: word_def)
  have st: "stops (key_text ks @ r)"
    using Cons.prems(2) by (cases ks) simp_all
  have tw: "takeWhile word_char (k @ key_text ks @ r) = k"
    by (rule takeWhile_word_run [OF k(2) st])
  have dw: "dropWhile word_char (k @ key_text ks @ r) = key_text ks @ r"
    by (rule dropWhile_word_run [OF k(2) st])
  have ih: "match_all_keys (key_text ks @ r) = (key_text ks, r)"
    using Cons by simp
  show ?case
    by (subst match_all_keys.simps) (simp add: tw dw ih k)
qed

lemma split_sep_no_sep: "c \<notin> set w \<Longrightarrow> split_sep c w = [w]"
  by (induction w) auto

lemma split_sep_append: "c \<notin> set w \<Longrightarrow> split_sep c (w @ c # r) = w # split_sep c r"
  by (induction w) auto

lemma word_no_slash: "list_all word_char w \<Longrightarrow> CHR ''/'' \<notin> set w"
  by (auto simp: list_all_iff)

lemma split_sep_word_key_text:
  "list_all word ks \<Longrightarrow> CHR ''/'' \<notin> set w \<Longrightarrow> split_sep CHR ''/'' (w @ key_text ks) = w # ks"
proof (induction ks arbitrary: w)
  case Nil
  then show ?case by (simp add: split_sep_no_sep)
next
  case (Cons k ks)
  then have k: "CHR ''/'' \<notin> set k" by (simp add: word_def word_no_slash)
  have "split_sep CHR ''/'' (k @ key_text ks) = k # ks"
    using Cons.IH [OF _ k] Cons.prems(1) by simp
  then show ?case
    using Cons.prems(2) by (simp add: split_sep_append)
qed

lemma split_sep_key_text: "list_all word ks \<Longrightarrow> split_sep CHR ''/'' (key_text ks) = [] # ks"
  using split_sep_word_key_text [of ks "[]"] by simp

lemma startswith_append [simp]: "startswith (p @ r) p"
  by (simp add: startswith_def)

lemma match_doc_start [simp]: "match_doc (''start'' @ r) = Some (''start'', None, r)"
  by (simp add: match_doc_def startswith_def)

lemma match_doc_stop [simp]: "match_doc (''stop'' @ r) = Some (''stop'', None, r)"
  by (simp add: match_doc_def startswith_def)

lemma match_doc_desc:
  "word s \<Longrightarrow> stops r \<Longrightarrow> match_doc (''desc/'' @ s @ r) = Some (''desc/'' @ s, Some s, r)"
  by (simp add: match_doc_def startswith_def word_def takeWhile_word_run dropWhile_word_run)

lemma match_attribute_simps [simp]:
  "match_attribute [] = None"
  "word a \<Longrightarrow> match_attribute (CHR ''@'' # a) = Some a"
  using takeWhile_eq_all_conv [of word_char a]
  by (auto simp: match_attribute_def word_def list_all_iff simp del: takeWhile_eq_all_conv)

lemma stops_tail:
  "stops (key_text segs @ (case attr of None \<Rightarrow> [] | Some a \<Rightarrow> CHR ''@'' # a))"
  by (cases segs; cases attr) simp_all

lemma match_all_keys_attr:
  "match_all_keys (case attr of None \<Rightarrow> [] | Some a \<Rightarrow> CHR ''@'' # a)
     = ([], case attr of None \<Rightarrow> [] | Some a \<Rightarrow> CHR ''@'' # a)"
  by (rule match_all_keys_stop) (simp split: option.splits)

lemma re_match_ref_string:
  assumes "valid_ref kind strm segs attr"
  shows "bluesky_doc_query_re_match (ref_string kind strm segs attr)
           = Some \<lparr>doc = kind @ (case strm of None \<Rightarrow> [] | Some s \<Rightarrow> CHR ''/'' # s), stream = strm,
                    all_keys = key_text segs, attribute = attr\<rparr>"
proof -
  let ?tail = "case attr of None \<Rightarrow> [] | Some a \<Rightarrow> CHR ''@'' # a"
  have segs: "list_all word segs" using assms by (simp add: valid_ref_def)
  have ak: "match_all_keys (key_text segs @ ?tail) = (key_text segs, ?tail)"
    by (rule match_all_keys_text [OF segs _ match_all_keys_attr]) (simp split: option.splits)
  have at: "match_attribute ?tail = attr"
    using assms by (simp add: valid_ref_def split: option.splits)
  have md: "match_doc (kind @ (case strm of None \<Rightarrow> [] | Some s \<Rightarrow> CHR ''/'' # s) @ key_text segs @ ?tail)
              = Some (kind @ (case strm of None \<Rightarrow> [] | Some s \<Rightarrow> CHR ''/'' # s), strm, key_text segs @ ?tail)"
  proof (cases strm)
    case None
    then show ?thesis using assms by (auto simp: valid_ref_def match_doc_def startswith_def)
  next
    case (Some s)
    then have "kind = ''desc''" "word s" using assms by (simp_all add: valid_ref_def)
    then show ?thesis
      using match_doc_desc [OF \<open>word s\<close> stops_tail [of segs attr]] Some by simp
  qed
  show ?thesis
    unfolding bluesky_doc_query_re_match_def ref_string_def
    using md by (simp add: startswith_def ak at)
qed

lemma doc_of_kind:
  assumes "valid_ref kind strm segs attr"
    and "D = kind @ (case strm of None \<Rightarrow> [] | Some s \<Rightarrow> CHR ''/'' # s)"
  shows "(if startswith D ''desc'' then hd (split_sep CHR ''/'' D) else D) = kind"
proof (cases strm)
  case None
  then show ?thesis using assms by (auto simp: valid_ref_def startswith_def)
next
  case (Some s)
  then have "kind = ''desc''" using assms by (simp add: valid_ref_def)
  then show ?thesis using Some assms(2) by (simp add: startswith_def)
qed

lemma parse_ref_string:
  assumes "valid_ref kind strm segs attr"
  shows "parse_bluesky_document_path (ref_string kind strm segs attr)
           = Inr \<lparr>doc = kind, stream = strm, all_keys = key_text segs, attribute = attr, keys = segs\<rparr>"
proof -
  have segs: "list_all word segs" using assms by (simp add: valid_ref_def)
  show ?thesis
    by (simp only: parse_bluesky_document_path_def re_match_ref_string [OF assms] option.case
          groupdict.select_convs doc_of_kind [OF assms refl] split_sep_key_text [OF segs] list.sel)
qed

lemma startswith_split: "startswith s p \<Longrightarrow> length p = n \<Longrightarrow> s = p @ drop n s"
  by (metis append_take_drop_id startswith_def)

lemma word_takeWhile: "takeWhile word_char t \<noteq> [] \<Longrightarrow> word (takeWhile word_char t)"
  by (simp add: word_def list_all_iff) (meson set_takeWhileD)

lemma match_all_keys_sound:
  "match_all_keys s = (m, r) \<Longrightarrow> \<exists>ks. list_all word ks \<and> m = key_text ks \<and> s = m @ r"
proof (induction s arbitrary: m r rule: match_all_keys.induct)
  case (1 s)
  show ?case
  proof (cases "\<exists>t. s = CHR ''/'' # t \<and> takeWhile word_char t \<noteq> []")
    case False
    then have "match_all_keys s = ([], s)"
      by (subst match_all_keys.simps) (auto split: list.splits)
    with "1.prems" have "m = []" "r = s" by simp_all
    then show ?thesis by (intro exI [of _ "[]"]) simp
  next
    case True
    then obtain t where s: "s = CHR ''/'' # t" and w: "takeWhile word_char t \<noteq> []" by blast
    obtain m' r' where rec: "match_all_keys (dropWhile word_char t) = (m', r')"
      by (cases "match_all_keys (dropWhile word_char t)")
    have "match_all_keys s = (CHR ''/'' # takeWhile word_char t @ m', r')"
      by (subst match_all_keys.simps) (simp add: s w rec)
    with "1.prems" have m: "m = CHR ''/'' # takeWhile word_char t @ m'" and r: "r = r'" by simp_all
    from "1.IH" [OF s _ rec] w obtain ks
      where ks: "list_all word ks" "m' = key_text ks" "dropWhile word_char t = m' @ r'"
      by auto
    have "s = m @ r"
      using s m r ks(3) takeWhile_dropWhile_id [of word_char t] by (metis append_Cons append_assoc)
    moreover have "m = key_text (takeWhile word_char t # ks)" using m ks(2) by simp
    moreover have "list_all word (takeWhile word_char t # ks)"
      using ks(1) word_takeWhile [OF w] by simp
    ultimately show ?thesis by blast
  qed
qed

lemma match_doc_sound:
  assumes "match_doc s = Some (d, st, r)"
  shows "(st = None \<and> (d = ''start'' \<or> d = ''stop'') \<or> (\<exists>w. st = Some w \<and> word w \<and> d = ''desc/'' @ w))
         \<and> s = d @ r"
proof -
  consider (a) "startswith s ''start''"
    | (b) "\<not> startswith s ''start''" "startswith s ''stop''"
    | (c) "\<not> startswith s ''start''" "\<not> startswith s ''stop''"
          "startswith s ''desc/''" "takeWhile word_char (drop 5 s) \<noteq> []"
    using assms by (auto simp: match_doc_def split: if_splits)
  then show ?thesis
  proof cases
    case a
    then show ?thesis using assms startswith_split [OF a, of 5] by (auto simp: match_doc_def)
  next
    case b
    then show ?thesis using assms startswith_split [OF b(2), of 4] by (auto simp: match_doc_def)
  next
    case c
    let ?w = "takeWhile word_char (drop 5 s)"
    have eqs: "d = ''desc/'' @ ?w" "st = Some ?w" "r = dropWhile word_char (drop 5 s)"
      using assms c by (simp_all add: match_doc_def)
    have "s = ''desc/'' @ drop 5 s"
      using startswith_split [OF c(3), of 5] by simp
    also have "drop 5 s = ?w @ dropWhile word_char (drop 5 s)" by simp
    finally have "s = d @ r" unfolding eqs by simp
    then show ?thesis
      using eqs word_takeWhile [OF c(4)] by blast
  qed
qed

lemma match_attribute_sound:
  "\<exists>rest. (case match_attribute r of None \<Rightarrow> True | Some a \<Rightarrow> word a)
     \<and> r = (case match_attribute r of None \<Rightarrow> [] | Some a \<Rightarrow> CHR ''@'' # a) @ rest"
proof (cases "\<exists>t. r = CHR ''@'' # t \<and> takeWhile word_char t \<noteq> []")
  case True
  then obtain t where t: "r = CHR ''@'' # t" "takeWhile word_char t \<noteq> []" by blast
  then have "match_attribute r = Some (takeWhile word_char t)" by (simp add: match_attribute_def)
  then show ?thesis
    using t word_takeWhile [OF t(2)]
    by (intro exI [of _ "dropWhile word_char t"]) simp
next
  case False
  then have "match_attribute r = None" by (auto simp: match_attribute_def split: list.splits)
  then show ?thesis by simp
qed

lemma re_match_sound:
  assumes "bluesky_doc_query_re_match s = Some m"
  shows "\<exists>kind segs rest. valid_ref kind (stream m) segs (attribute m)
           \<and> doc m = kind @ (case stream m of None \<Rightarrow> [] | Some w \<Rightarrow> CHR ''/'' # w)
           \<and> all_keys m = key_text segs
           \<and> s = ref_string kind (stream m) segs (attribute m) @ rest"
proof -
  from assms have sw: "startswith s ''#bluesky/''"
    by (auto simp: bluesky_doc_query_re_match_def split: if_splits)
  with assms obtain d st r where md: "match_doc (drop 9 s) = Some (d, st, r)"
    by (auto simp: bluesky_doc_query_re_match_def split: option.splits)
  obtain ak r' where mk: "match_all_keys r = (ak, r')" by (cases "match_all_keys r")
  from assms sw md mk
  have m: "m = \<lparr>doc = d, stream = st, all_keys = ak, attribute = match_attribute r'\<rparr>"
    by (simp add: bluesky_doc_query_re_match_def)
  from match_all_keys_sound [OF mk] obtain segs
    where segs: "list_all word segs" "ak = key_text segs" "r = ak @ r'" by blast
  from match_attribute_sound [of r'] obtain rest
    where at: "case match_attribute r' of None \<Rightarrow> True | Some a \<Rightarrow> word a"
      and r': "r' = (case match_attribute r' of None \<Rightarrow> [] | Some a \<Rightarrow> CHR ''@'' # a) @ rest"
    by blast
  from match_doc_sound [OF md]
  have d: "st = None \<and> (d = ''start'' \<or> d = ''stop'') \<or> (\<exists>w. st = Some w \<and> word w \<and> d = ''desc/'' @ w)"
    and ds: "drop 9 s = d @ r" by simp_all
  define kind where "kind = (case st of None \<Rightarrow> d | Some w \<Rightarrow> ''desc'')"
  have dk: "d = kind @ (case st of None \<Rightarrow> [] | Some w \<Rightarrow> CHR ''/'' # w)"
    using d by (auto simp: kind_def)
  have v: "valid_ref kind st segs (match_attribute r')"
    using d segs(1) at by (auto simp: valid_ref_def kind_def)
  have "s = ''#bluesky/'' @ drop 9 s" using startswith_split [OF sw, of 9] by simp
  also have "drop 9 s = d @ key_text segs @ r'" using ds segs by simp
  finally have "s = ref_string kind st segs (match_attribute r') @ rest"
    using r' dk by (simp add: ref_string_def)
  with v dk segs(2) show ?thesis unfolding m by auto
qed

lemma re_match_complete:
  assumes "valid_ref kind strm segs attr"
  shows "bluesky_doc_query_re_match (ref_string kind strm segs attr @ rest) \<noteq> None"
proof -
  let ?tail = "key_text segs @ (case attr of None \<Rightarrow> [] | Some a \<Rightarrow> CHR ''@'' # a) @ rest"
  have "match_doc (kind @ (case strm of None \<Rightarrow> [] | Some s \<Rightarrow> CHR ''/'' # s) @ ?tail) \<noteq> None"
  proof (cases strm)
    case None
    then show ?thesis using assms by (auto simp: valid_ref_def match_doc_def startswith_def)
  next
    case (Some w)
    then have k: "kind = ''desc''" and w: "w \<noteq> []" "word_char (hd w)"
      using assms by (cases w; simp add: valid_ref_def word_def)+
    then have "takeWhile word_char (w @ ?tail) \<noteq> []" by (cases w) simp_all
    then show ?thesis using Some k by (simp add: match_doc_def startswith_def)
  qed
  then show ?thesis
    by (auto simp: bluesky_doc_query_re_match_def ref_string_def startswith_def split: prod.splits)
qed

section \<open>The parser and the grammar\<close>

lemma parse_sound:
  assumes "parse_bluesky_document_path s = Inr p"
  shows "valid_ref (doc p) (stream p) (keys p) (attribute p)
         \<and> (\<exists>rest. s = ref_string (doc p) (stream p) (keys p) (attribute p) @ rest)"
proof -
  from assms obtain m where m: "bluesky_doc_query_re_match s = Some m"
    by (auto simp: parse_bluesky_document_path_def split: option.splits)
  from re_match_sound [OF m] obtain kind segs rest
    where v: "valid_ref kind (stream m) segs (attribute m)"
      and d: "doc m = kind @ (case stream m of None \<Rightarrow> [] | Some w \<Rightarrow> CHR ''/'' # w)"
      and ak: "all_keys m = key_text segs"
      and s: "s = ref_string kind (stream m) segs (attribute m) @ rest"
    by blast
  have segs: "list_all word segs" using v by (simp add: valid_ref_def)
  have "parse_bluesky_document_path s
          = Inr \<lparr>doc = kind, stream = stream m, all_keys = all_keys m, attribute = attribute m, keys = segs\<rparr>"
    by (simp only: parse_bluesky_document_path_def m option.case doc_of_kind [OF v d] ak
          split_sep_key_text [OF segs] list.sel)
  with assms have "p = \<lparr>doc = kind, stream = stream m, all_keys = all_keys m, attribute = attribute m, keys = segs\<rparr>"
    by simp
  with v s show ?thesis by auto
qed

lemma parse_failure:
  assumes "parse_bluesky_document_path s = Inl e"
  shows "e = Exception (''failed to parse '' @ [CHR 0x27] @ s @ [CHR 0x27])
         \<and> (\<nexists>kind strm segs attr rest.
               valid_ref kind strm segs attr \<and> s = ref_string kind strm segs attr @ rest)"
proof -
  from assms have n: "bluesky_doc_query_re_match s = None"
    and e: "e = Exception (''failed to parse '' @ [CHR 0x27] @ s @ [CHR 0x27])"
    by (auto simp: parse_bluesky_document_path_def split: option.splits)
  from n re_match_complete have "\<nexists>kind strm segs attr rest.
               valid_ref kind strm segs attr \<and> s = ref_string kind strm segs attr @ rest"
    by blast
  with e show ?thesis by simp
qed

lemma ref_string_chars:
  assumes "valid_ref kind strm segs attr"
  shows "list_all (\<lambda>c. word_char c \<or> c = CHR ''#'' \<or> c = CHR ''/'' \<or> c = CHR ''@'')
           (ref_string kind strm segs attr)"
proof -
  let ?P = "\<lambda>c. word_char c \<or> c = CHR ''#'' \<or> c = CHR ''/'' \<or> c = CHR ''@''"
  have w: "list_all ?P x" if "word x" for x
    using that by (auto simp: word_def list_all_iff)
  have k: "list_all ?P kind" using assms
    by (auto simp: valid_ref_def word_char_def split: option.splits)
  have s: "list_all ?P (case strm of None \<Rightarrow> [] | Some s \<Rightarrow> CHR ''/'' # s)"
    using assms w by (auto simp: valid_ref_def split: option.splits)
  have a: "list_all ?P (case attr of None \<Rightarrow> [] | Some s \<Rightarrow> CHR ''@'' # s)"
    using assms w by (auto simp: valid_ref_def split: option.splits)
  have "list_all word segs" using assms by (simp add: valid_ref_def)
  then have g: "list_all ?P (key_text segs)"
    using w by (induction segs) auto
  show ?thesis
    using k s a g by (simp add: ref_string_def word_char_def)
qed

text \<open>
  Claim C2, as amended. For every input string the parser either returns a descriptor or
  raises the exception \<open>failed to parse '...'\<close>. It returns a descriptor exactly when
  the string begins with a match of the grammar, and the descriptor then describes such a
  beginning: the characters after the recognised portion are ignored, not rejected.
\<close>

theorem parse_accepts_grammar_prefix:
  "case parse_bluesky_document_path s of
     Inr p \<Rightarrow>
       valid_ref (doc p) (stream p) (keys p) (attribute p)
       \<and> (\<exists>rest. s = ref_string (doc p) (stream p) (keys p) (attribute p) @ rest)
   | Inl e \<Rightarrow>
       e = Exception (''failed to parse '' @ [CHR 0x27] @ s @ [CHR 0x27])
       \<and> (\<nexists>kind strm segs attr rest.
             valid_ref kind strm segs attr \<and> s = ref_string kind strm segs attr @ rest)"
  using parse_sound [of s] parse_failure [of s] by (simp split: sum.split)

text \<open>
  Claim C2 as stated fails: \<open>#bluesky/start!\<close> is no string of the grammar, and it parses.
\<close>

theorem trailing_characters_counterexample:
  "parse_bluesky_document_path ''#bluesky/start!''
     = Inr \<lparr>doc = ''start'', stream = None, all_keys = [], attribute = None, keys = []\<rparr>
   \<and> \<not> (\<exists>kind strm segs attr.
           valid_ref kind strm segs attr \<and> ''#bluesky/start!'' = ref_string kind strm segs attr)"
proof -
  have "parse_bluesky_document_path ''#bluesky/start!''
     = Inr \<lparr>doc = ''start'', stream = None, all_keys = [], attribute = None, keys = []\<rparr>"
    by code_simp
  moreover have "\<not> (\<exists>kind strm segs attr.
           valid_ref kind strm segs attr \<and> ''#bluesky/start!'' = ref_string kind strm segs attr)"
  proof
    assume "\<exists>kind strm segs attr.
           valid_ref kind strm segs attr \<and> ''#bluesky/start!'' = ref_string kind strm segs attr"
    then obtain kind strm segs attr where
      "valid_ref kind strm segs attr" "''#bluesky/start!'' = ref_string kind strm segs attr"
      by blast
    with ref_string_chars [of kind strm segs attr]
    have "list_all (\<lambda>c. word_char c \<or> c = CHR ''#'' \<or> c = CHR ''/'' \<or> c = CHR ''@'') ''#bluesky/start!''"
      by simp
    then show False by (simp add: word_char_def)
  qed
  ultimately show ?thesis by simp
qed

text \<open>
  Claim C4. \<open>#bluesky/start\<close> and \<open>#bluesky/stop\<close> parse to their kind with no stream and no
  keys; \<open>#bluesky/desc/<stream>/<k1>/<k2>\<close>, its segments non-empty and of word characters,
  parses to the kind \<open>desc\<close>, that stream and the keys \<open>(k1, k2)\<close>; \<open>#bluesky/desc\<close> with no
  stream fails to parse.
\<close>

theorem parse_start_stop_desc:
  assumes "word strm" and "word k1" and "word k2"
  shows "parse_bluesky_document_path ''#bluesky/start''
           = Inr \<lparr>doc = ''start'', stream = None, all_keys = [], attribute = None, keys = []\<rparr>
       \<and> parse_bluesky_document_path ''#bluesky/stop''
           = Inr \<lparr>doc = ''stop'', stream = None, all_keys = [], attribute = None, keys = []\<rparr>
       \<and> parse_bluesky_document_path (''#bluesky/desc/'' @ strm @ ''/'' @ k1 @ ''/'' @ k2)
           = Inr \<lparr>doc = ''desc'', stream = Some strm, all_keys = ''/'' @ k1 @ ''/'' @ k2,
                  attribute = None, keys = [k1, k2]\<rparr>
       \<and> parse_bluesky_document_path ''#bluesky/desc''
           = Inl (Exception (''failed to parse '' @ [CHR 0x27] @ ''#bluesky/desc'' @ [CHR 0x27]))"
proof -
  have a: "parse_bluesky_document_path ''#bluesky/start''
           = Inr \<lparr>doc = ''start'', stream = None, all_keys = [], attribute = None, keys = []\<rparr>"
    by code_simp
  have b: "parse_bluesky_document_path ''#bluesky/stop''
           = Inr \<lparr>doc = ''stop'', stream = None, all_keys = [], attribute = None, keys = []\<rparr>"
    by code_simp
  have c: "parse_bluesky_document_path ''#bluesky/desc''
           = Inl (Exception (''failed to parse '' @ [CHR 0x27] @ ''#bluesky/desc'' @ [CHR 0x27]))"
    by code_simp
  have "valid_ref ''desc'' (Some strm) [k1, k2] None"
    using assms by (simp add: valid_ref_def)
  from parse_ref_string [OF this]
  have d: "parse_bluesky_document_path (''#bluesky/desc/'' @ strm @ ''/'' @ k1 @ ''/'' @ k2)
           = Inr \<lparr>doc = ''desc'', stream = Some strm, all_keys = ''/'' @ k1 @ ''/'' @ k2,
                  attribute = None, keys = [k1, k2]\<rparr>"
    by (simp add: ref_string_def)
  from a b c d show ?thesis by simp
qed

text \<open>The hypotheses of C4 hold for \<open>#bluesky/desc/primary/data_keys/det\<close>.\<close>

theorem parse_start_stop_desc_witness:
  "word ''primary'' \<and> word ''data_keys'' \<and> word ''det'' \<and>
   parse_bluesky_document_path ''#bluesky/desc/primary/data_keys/det''
     = Inr \<lparr>doc = ''desc'', stream = Some ''primary'', all_keys = ''/data_keys/det'',
            attribute = None, keys = [''data_keys'', ''det'']\<rparr>"
proof -
  have w: "word ''primary''" "word ''data_keys''" "word ''det''"
    by (simp_all add: word_def word_char_def)
  from parse_start_stop_desc [OF w] w show ?thesis by simp
qed

section \<open>The interpreter on a dataset node\<close>

lemma node_update:
  "node (f[g := obj]) t = (if t < length f then (if t = g then Some obj else Some (f ! t)) else None)"
  by (simp add: node_def)

lemma node_append_new: "node (f @ [obj]) (length f) = Some obj"
  by (simp add: node_def)

lemma node_append_old: "t < length f \<Longrightarrow> node (f @ [obj]) t = node f t"
  by (simp add: node_def nth_append)

lemma node_Some_less: "node f t = Some obj \<Longrightarrow> t < length f"
  by (simp add: node_def split: if_splits)

lemma add_member_Inr:
  "add_member f g name obj = Inr (f', t) \<Longrightarrow>
   \<exists>ms as. node f g = Some (Group ms as) \<and> map_of ms name = None \<and> t = length f
     \<and> f' = f[g := Group (ms @ [(name, length f)]) as] @ [obj]"
  by (auto simp: add_member_def split: option.splits h5obj.splits)

lemma add_member_Dataset: "node f g = Some (Dataset d as) \<Longrightarrow> add_member f g name obj = Inl AttributeError"
  by (simp add: add_member_def)

lemma h5_create_dataset_Inr:
  "h5_create_dataset L f g name v = Inr (f', t) \<Longrightarrow>
   \<exists>ms as. node f g = Some (Group ms as) \<and> map_of ms name = None \<and> t = length f
     \<and> data_exc L v = None
     \<and> f' = f[g := Group (ms @ [(name, length f)]) as] @ [Dataset v []]"
  by (auto simp: h5_create_dataset_def split: option.splits h5obj.splits dest: add_member_Inr)

lemma h5_create_dataset_Dataset:
  "node f g = Some (Dataset d as) \<Longrightarrow> h5_create_dataset L f g name v = Inl AttributeError"
  by (simp add: h5_create_dataset_def)

lemma h5_create_group_Dataset:
  "node f g = Some (Dataset d as) \<Longrightarrow> h5_create_group f g name = Inl AttributeError"
  by (simp add: h5_create_group_def add_member_Dataset)

lemma h5_setitem_Dataset:
  "node f g = Some (Dataset d as) \<Longrightarrow> h5_setitem f g name t = Inl ValueError"
  by (simp add: h5_setitem_def)

lemma set_attributes_Inr:
  "node f t = Some obj \<Longrightarrow> set_attributes L as t f = Inr f' \<Longrightarrow>
   f' = f[t := fold (\<lambda>kv. set_attr (fst kv) (snd kv)) as obj]"
proof (induction as arbitrary: f obj)
  case Nil
  then have "f' = f" "f ! t = obj" by (auto simp: node_def split: if_splits)
  then show ?case by (metis fold_simps(1) list_update_id)
next
  case (Cons a as)
  obtain k v where a: "a = (k, v)" by (cases a)
  from Cons.prems obtain f1 where f1: "h5_attrs_setitem L f t k v = Inr f1"
    and rest: "set_attributes L as t f1 = Inr f'"
    by (auto simp: a split: sum.splits)
  from f1 Cons.prems(1) have f1': "f1 = f[t := set_attr k v obj]"
    by (auto simp: h5_attrs_setitem_def split: option.splits)
  have n1: "node f1 t = Some (set_attr k v obj)"
    using Cons.prems(1) by (simp add: f1' node_update node_Some_less)
  from Cons.IH [OF n1 rest] show ?case by (simp add: f1' a)
qed

lemma fold_set_attr_Dataset:
  "fold (\<lambda>kv. set_attr (fst kv) (snd kv)) as (Dataset d a0)
     = Dataset d (fold (\<lambda>kv. AList.update (fst kv) (snd kv)) as a0)"
  by (induction as arbitrary: a0) simp_all

lemma fold_update_distinct:
  "distinct (map fst (a0 @ as)) \<Longrightarrow> fold (\<lambda>kv. AList.update (fst kv) (snd kv)) as a0 = a0 @ as"
proof (induction as arbitrary: a0)
  case Nil
  then show ?case by simp
next
  case (Cons a as)
  have "AList.update (fst a) (snd a) a0 = a0 @ [a]"
    using Cons.prems by (induction a0) (auto simp: rev_image_eqI)
  with Cons.IH [of "a0 @ [a]"] Cons.prems show ?case by simp
qed

lemma copy_onto_dataset:
  "node f t = Some (Dataset d a0) \<Longrightarrow> copy_nexus_md_to_nexus_h5 L m t f = Inr f' \<Longrightarrow>
   list_all (\<lambda>kv. reserved (fst kv)) m
   \<and> f' = f[t := Dataset d (fold (\<lambda>kv. AList.update (fst kv) (snd kv)) (listed_attrs m) a0)]"
proof (induction m arbitrary: f a0)
  case Nil
  then have "f' = f" "f ! t = Dataset d a0"
    by (auto simp: copy_nexus_md_to_nexus_h5.simps node_def split: if_splits)
  then show ?case by (simp add: list_update_same_conv [symmetric]) (metis list_update_id)
next
  case (Cons a m)
  obtain k v where a: "a = (k, v)" by (cases a)
  consider (skip) "k = ''_data'' \<or> k = ''_link''" | (attrs) "k = ''_attributes''" | (other) "\<not> reserved k"
    by (auto simp: reserved_def)
  then show ?case
  proof cases
    case skip
    with Cons.prems have "copy_nexus_md_to_nexus_h5 L m t f = Inr f'"
      by (auto simp: a copy_nexus_md_to_nexus_h5.simps)
    from Cons.IH [OF Cons.prems(1) this] skip show ?thesis by (auto simp: a reserved_def)
  next
    case attrs
    with Cons.prems(2) obtain as f1 where v: "v = PDict as"
      and f1: "set_attributes L as t f = Inr f1"
      and rest: "copy_nexus_md_to_nexus_h5 L m t f1 = Inr f'"
      by (auto simp: a copy_nexus_md_to_nexus_h5.simps split: pyval.splits sum.splits)
    have f1': "f1 = f[t := Dataset d (fold (\<lambda>kv. AList.update (fst kv) (snd kv)) as a0)]"
      using set_attributes_Inr [OF Cons.prems(1) f1] by (simp add: fold_set_attr_Dataset)
    have n1: "node f1 t = Some (Dataset d (fold (\<lambda>kv. AList.update (fst kv) (snd kv)) as a0))"
      using Cons.prems(1) by (simp add: f1' node_update node_Some_less)
    from Cons.IH [OF n1 rest] show ?thesis
      by (simp add: a attrs v f1' reserved_def)
  next
    case other
    have "\<exists>e. copy_nexus_md_to_nexus_h5 L ((k, v) # m) t f = Inl e"
      using other Cons.prems(1)
      by (auto simp: copy_nexus_md_to_nexus_h5.simps reserved_def h5_setitem_Dataset
          h5_create_dataset_Dataset h5_create_group_Dataset
          split: pyval.splits option.splits sum.splits)
    with Cons.prems(2) show ?thesis by (simp add: a)
  qed
qed

lemma listed_attrs_none:
  "''_attributes'' \<notin> fst ` set m \<Longrightarrow> listed_attrs m = []"
  by (induction m) auto

lemma listed_attrs_distinct:
  "distinct (map fst m) \<Longrightarrow> map_of m ''_attributes'' = Some (PDict as) \<Longrightarrow> listed_attrs m = as"
proof (induction m)
  case Nil
  then show ?case by simp
next
  case (Cons a m)
  obtain k v where a: "a = (k, v)" by (cases a)
  show ?case
  proof (cases "k = ''_attributes''")
    case True
    with Cons.prems have "v = PDict as" "''_attributes'' \<notin> fst ` set m"
      by (auto simp: a)
    then show ?thesis by (simp add: a True listed_attrs_none)
  next
    case False
    with Cons show ?thesis by (simp add: a)
  qed
qed

text \<open>
  Claim C5. A mapping under an ordinary key that holds \<open>_attributes\<close> and \<open>_data\<close> and no
  \<open>_link\<close>: whenever the interpreter returns, the member of that name is a new dataset (not
  a group) that holds the value of \<open>_data\<close> and carries exactly the attributes listed under
  \<open>_attributes\<close>. The keys of a dictionary are distinct.
\<close>

theorem dataset_with_attributes:
  assumes "\<not> reserved k"
    and "distinct (map fst m)" and "distinct (map fst as)"
    and "map_of m ''_link'' = None"
    and "map_of m ''_data'' = Some d"
    and "map_of m ''_attributes'' = Some (PDict as)"
    and "copy_nexus_md_to_nexus_h5 L [(k, PDict m)] g f = Inr f'"
  shows "h5_getitem f' g k = Inr (length f)
         \<and> node f' (length f) = Some (Dataset d as)
         \<and> length f' = length f + 1"
proof -
  from assms(1,4,5,7) obtain f1 t t' where
    cd: "h5_create_dataset L f g k d = Inr (f1, t)"
    and gi: "h5_getitem f1 g k = Inr t'"
    and rec: "copy_nexus_md_to_nexus_h5 L m t' f1 = Inr f'"
    by (auto simp: copy_nexus_md_to_nexus_h5.simps reserved_def split: sum.splits)
  from h5_create_dataset_Inr [OF cd] obtain ms gas where
    g: "node f g = Some (Group ms gas)" and free: "map_of ms k = None" and t: "t = length f"
    and f1: "f1 = f[g := Group (ms @ [(k, length f)]) gas] @ [Dataset d []]"
    by blast
  have gl: "g < length f" using g by (rule node_Some_less)
  have ng: "node f1 g = Some (Group (ms @ [(k, length f)]) gas)"
    using gl by (simp add: f1 node_append_old node_update)
  have t': "t' = length f"
    using gi ng free by (simp add: h5_getitem_def map_add_def split: option.splits)
  have nt: "node f1 (length f) = Some (Dataset d [])"
    using node_append_new [of "f[g := Group (ms @ [(k, length f)]) gas]"] by (simp add: f1)
  from copy_onto_dataset [OF nt rec [unfolded t']]
  have f': "f' = f1[length f := Dataset d (fold (\<lambda>kv. AList.update (fst kv) (snd kv)) (listed_attrs m) [])]"
    by simp
  have la: "fold (\<lambda>kv. AList.update (fst kv) (snd kv)) (listed_attrs m) [] = as"
    using listed_attrs_distinct [OF assms(2,6)] fold_update_distinct [of "[]" as] assms(3) by simp
  have l1: "length f1 = length f + 1" by (simp add: f1)
  have "node f' g = Some (Group (ms @ [(k, length f)]) gas)"
    using ng gl l1 by (simp add: f' node_def)
  then have "h5_getitem f' g k = Inr (length f)"
    using free by (simp add: h5_getitem_def map_add_def)
  moreover have "node f' (length f) = Some (Dataset d as)"
    using l1 by (simp add: f' la node_def)
  moreover have "length f' = length f + 1" using l1 by (simp add: f')
  ultimately show ?thesis by simp
qed

text \<open>The hypotheses of C5 hold for the \<open>program_name\<close> example, which the interpreter copies.\<close>

theorem dataset_with_attributes_witness:
  "copy_nexus_md_to_nexus_h5 accept_all
     [(''program_name'', PDict [(''_attributes'', PDict [(''NDAttrName'', PStr ''ProgramName'')]),
                                (''_data'', PStr ''EPICS areaDetector'')])] 0 [Group [] []]
     = Inr [Group [(''program_name'', 1)] [],
            Dataset (PStr ''EPICS areaDetector'') [(''NDAttrName'', PStr ''ProgramName'')]]
   \<and> h5_getitem [Group [(''program_name'', 1)] [],
            Dataset (PStr ''EPICS areaDetector'') [(''NDAttrName'', PStr ''ProgramName'')]] 0 ''program_name''
       = Inr 1
   \<and> node [Group [(''program_name'', 1)] [],
            Dataset (PStr ''EPICS areaDetector'') [(''NDAttrName'', PStr ''ProgramName'')]] 1
       = Some (Dataset (PStr ''EPICS areaDetector'') [(''NDAttrName'', PStr ''ProgramName'')])"
proof -
  let ?m = "[(''_attributes'', PDict [(''NDAttrName'', PStr ''ProgramName'')]),
             (''_data'', PStr ''EPICS areaDetector'')]"
  have run: "copy_nexus_md_to_nexus_h5 accept_all [(''program_name'', PDict ?m)] 0 [Group [] []]
     = Inr [Group [(''program_name'', 1)] [],
            Dataset (PStr ''EPICS areaDetector'') [(''NDAttrName'', PStr ''ProgramName'')]]"
    by code_simp
  have "\<not> reserved ''program_name''" by (simp add: reserved_def)
  from dataset_with_attributes [OF this _ _ _ _ _ run, of "[(''NDAttrName'', PStr ''ProgramName'')]" "PStr ''EPICS areaDetector''"]
  show ?thesis using run by simp
qed

section \<open>The interpreter: links and references\<close>

text \<open>
  Claim C3. Interpreting the tree \<open>{"entry": {"_attributes": {"NX_Class": "NXEntry"}, "title":
  "#bluesky/start/sample_name"}}\<close> on a file whose dataset \<open>/bluesky/start/sample_name\<close> holds
  \<open>"Sample A"\<close> returns a file in which \<open>/entry\<close> is a group with the attribute \<open>NX_Class =
  "NXEntry"\<close> and \<open>/entry/title\<close> is the object \<open>/bluesky/start/sample_name\<close>: a link; the group
  is the only new object. This holds whatever the library refuses.
\<close>
theorem entry_tree_end_to_end:
  "\<exists>f' e. copy_nexus_md_to_nexus_h5 L entry_tree 0 sample_file = Inr f'
     \<and> traverse f' 0 [''entry''] = Inr e
     \<and> node f' e = Some (Group [(''title'', 3)] [(''NX_Class'', PStr ''NXEntry'')])
     \<and> traverse f' 0 [''entry'', ''title''] = Inr 3
     \<and> traverse f' 0 [''bluesky'', ''start'', ''sample_name''] = Inr 3
     \<and> node f' 3 = Some (Dataset (PStr ''Sample A'') [])
     \<and> length f' = length sample_file + 1"
proof -
  let ?f = "[Group [(''bluesky'', 1), (''entry'', 4)] [],
             Group [(''start'', 2)] [],
             Group [(''sample_name'', 3)] [],
             Dataset (PStr ''Sample A'') [],
             Group [(''title'', 3)] [(''NX_Class'', PStr ''NXEntry'')]]"
  have "copy_nexus_md_to_nexus_h5 L entry_tree 0 sample_file = Inr ?f"
    by code_simp
  moreover have "traverse ?f 0 [''entry''] = Inr 4" by code_simp
  moreover have "node ?f 4 = Some (Group [(''title'', 3)] [(''NX_Class'', PStr ''NXEntry'')])"
    by code_simp
  moreover have "traverse ?f 0 [''entry'', ''title''] = Inr 3" by code_simp
  moreover have "traverse ?f 0 [''bluesky'', ''start'', ''sample_name''] = Inr 3" by code_simp
  moreover have "node ?f 3 = Some (Dataset (PStr ''Sample A'') [])" by code_simp
  moreover have "length ?f = length sample_file + 1" by (simp add: sample_file_def)
  ultimately show ?thesis by blast
qed

text \<open>
  Claim C1 fails on the code. The descriptor of \<open>#bluesky/desc/primary/k1\<close> has the stream
  \<open>primary\<close> and the key \<open>k1\<close>; the resolver looks up \<open>bluesky\<close>, \<open>desc\<close> and then the keys, and
  never the stream. Where only \<open>/bluesky/desc/primary/k1\<close> exists it raises \<open>KeyError\<close>; where
  \<open>/bluesky/desc/k1\<close> exists too it returns that object.
\<close>
theorem resolver_ignores_stream:
  "parse_bluesky_document_path ''#bluesky/desc/primary/k1''
     = Inr \<lparr>doc = ''desc'', stream = Some ''primary'', all_keys = ''/k1'', attribute = None, keys = [''k1'']\<rparr>
   \<and> traverse desc_file 0 [''bluesky'', ''desc'', ''primary'', ''k1''] = Inr 4
   \<and> get_h5_group_or_dataset
        \<lparr>doc = ''desc'', stream = Some ''primary'', all_keys = ''/k1'', attribute = None, keys = [''k1'']\<rparr>
        desc_file = Inl KeyError
   \<and> traverse desc_file2 0 [''bluesky'', ''desc'', ''primary'', ''k1''] = Inr 4
   \<and> get_h5_group_or_dataset
        \<lparr>doc = ''desc'', stream = Some ''primary'', all_keys = ''/k1'', attribute = None, keys = [''k1'']\<rparr>
        desc_file2 = Inr 5
   \<and> traverse desc_file2 0 [''bluesky'', ''desc'', ''k1''] = Inr 5"
  by code_simp

text \<open>The resolver returns the same for every stream.\<close>

lemma resolver_stream_independent:
  "get_h5_group_or_dataset (p\<lparr>stream := s\<rparr>) f = get_h5_group_or_dataset p f"
  by (simp add: get_h5_group_or_dataset_def split: sum.splits)

text \<open>
  Claim C10 as stated fails: the value of \<open>_data\<close> is stored as the data of a dataset, also
  when it is a string that begins with \<open>#bluesky\<close>.
\<close>
theorem data_marker_reference_counterexample:
  "copy_nexus_md_to_nexus_h5 accept_all
     [(''title'', PDict [(''_data'', PStr ''#bluesky/start/sample_name'')])] 0 sample_file
   = Inr [Group [(''bluesky'', 1), (''title'', 4)] [],
          Group [(''start'', 2)] [],
          Group [(''sample_name'', 3)] [],
          Dataset (PStr ''Sample A'') [],
          Dataset (PStr ''#bluesky/start/sample_name'') []]"
  by code_simp

lemma h5_setitem_Inr:
  "h5_setitem f g name t = Inr f' \<Longrightarrow>
   \<exists>ms as. node f g = Some (Group ms as) \<and> map_of ms name = None
     \<and> f' = f[g := Group (ms @ [(name, t)]) as]"
  by (auto simp: h5_setitem_def split: option.splits h5obj.splits)

text \<open>
  Claim C10, as amended. Under a key that is none of \<open>_data\<close>, \<open>_link\<close>, \<open>_attributes\<close>, a
  string that begins with \<open>#bluesky\<close> is resolved and linked, and the loop goes on; the item
  alone either raises or adds one member to the group, the resolved object, and creates no
  object.
\<close>

theorem reference_string_never_literal:
  assumes "\<not> reserved k" and "startswith s ''#bluesky''"
  shows "copy_nexus_md_to_nexus_h5 L ((k, PStr s) # rest) g f
           = (case resolve_link (PStr s) f of
                Inl e \<Rightarrow> Inl e
              | Inr t \<Rightarrow>
                  (case h5_setitem f g k t of
                     Inl e \<Rightarrow> Inl e
                   | Inr f1 \<Rightarrow> copy_nexus_md_to_nexus_h5 L rest g f1))
         \<and> (case copy_nexus_md_to_nexus_h5 L [(k, PStr s)] g f of
               Inl e \<Rightarrow> True
             | Inr f' \<Rightarrow>
                 \<exists>t ms as. resolve_link (PStr s) f = Inr t \<and> node f g = Some (Group ms as)
                   \<and> map_of ms k = None \<and> f' = f[g := Group (ms @ [(k, t)]) as])"
  using assms
  by (auto simp: copy_nexus_md_to_nexus_h5.simps reserved_def split: sum.splits dest: h5_setitem_Inr)

text \<open>The hypotheses of C10 hold for the key \<open>title\<close> of the end-to-end example: a link, no new object.\<close>

theorem reference_string_never_literal_witness:
  "\<not> reserved ''title'' \<and> startswith ''#bluesky/start/sample_name'' ''#bluesky''
   \<and> copy_nexus_md_to_nexus_h5 accept_all [(''title'', PStr ''#bluesky/start/sample_name'')] 0 sample_file
       = Inr [Group [(''bluesky'', 1), (''title'', 3)] [],
              Group [(''start'', 2)] [],
              Group [(''sample_name'', 3)] [],
              Dataset (PStr ''Sample A'') []]"
proof -
  have a: "\<not> reserved ''title''" by (simp add: reserved_def)
  have b: "startswith ''#bluesky/start/sample_name'' ''#bluesky''" by (simp add: startswith_def)
  have c: "resolve_link (PStr ''#bluesky/start/sample_name'') sample_file = Inr 3" by code_simp
  have d: "h5_setitem sample_file 0 ''title'' 3
             = Inr [Group [(''bluesky'', 1), (''title'', 3)] [],
                    Group [(''start'', 2)] [],
                    Group [(''sample_name'', 3)] [],
                    Dataset (PStr ''Sample A'') []]"
    by code_simp
  from reference_string_never_literal [OF a b, of accept_all "[]" 0 sample_file]
  show ?thesis
    using a b by (simp add: c d copy_nexus_md_to_nexus_h5.simps(1))
qed

section \<open>The two copiers as one recursion, and how it changes the file\<close>

lemma copy_attrs_is_copy_leaves:
  "copy_metadata_to_h5_attrs L m g f = copy_leaves (attr_leaf L) m g f"
proof (induction L m g f rule: copy_metadata_to_h5_attrs.induct)
  case (1 L g f)
  show ?case by (simp add: copy_metadata_to_h5_attrs.simps copy_leaves.simps)
next
  case (2 L k v rest g f)
  then show ?case
    by (cases v)
      (auto simp: copy_metadata_to_h5_attrs.simps copy_leaves.simps attr_leaf_def Let_def
        split: sum.splits)
qed

lemma copy_datasets_is_copy_leaves:
  "copy_metadata_to_h5_datasets L m g f = copy_leaves (dataset_leaf L) m g f"
proof (induction L m g f rule: copy_metadata_to_h5_datasets.induct)
  case (1 L g f)
  show ?case by (simp add: copy_metadata_to_h5_datasets.simps copy_leaves.simps)
next
  case (2 L k v rest g f)
  then show ?case
    by (cases v)
      (auto simp: copy_metadata_to_h5_datasets.simps copy_leaves.simps dataset_leaf_def
        split: sum.splits)
qed

lemma copy_leaves_append:
  "copy_leaves leaf (xs @ ys) g f
     = (case copy_leaves leaf xs g f of Inl e \<Rightarrow> Inl e | Inr f1 \<Rightarrow> copy_leaves leaf ys g f1)"
proof (induction xs arbitrary: f)
  case Nil
  show ?case by (simp add: copy_leaves.simps)
next
  case (Cons a xs)
  obtain k v where a: "a = (k, v)" by (cases a)
  show ?case
    by (cases v) (auto simp: a copy_leaves.simps Cons.IH split: sum.splits)
qed

lemma grows_refl: "grows g f f"
  by (simp add: grows_def region_closed_def)

lemma region_closed_union:
  assumes "region_closed f a b" and "region_closed f b c" and "a \<le> b" and "b \<le> c"
  shows "region_closed f a c"
  unfolding region_closed_def
proof (intro allI impI)
  fix i n t
  assume h: "a \<le> i \<and> i < c \<and> map_of (members (f ! i)) n = Some t"
  show "a \<le> t \<and> t < c"
  proof (cases "i < b")
    case True
    with h assms(1) have "a \<le> t \<and> t < b" unfolding region_closed_def by blast
    with assms(4) show ?thesis by simp
  next
    case False
    with h assms(2) have "b \<le> t \<and> t < c" unfolding region_closed_def by (meson not_less)
    with assms(3) show ?thesis by simp
  qed
qed

lemma region_closed_cong:
  assumes "region_closed f lo hi" and "\<forall>i. lo \<le> i \<and> i < hi \<longrightarrow> f' ! i = f ! i"
  shows "region_closed f' lo hi"
  unfolding region_closed_def
proof (intro allI impI)
  fix i n t
  assume h: "lo \<le> i \<and> i < hi \<and> map_of (members (f' ! i)) n = Some t"
  with assms(2) have "f' ! i = f ! i" by blast
  with h have "lo \<le> i \<and> i < hi \<and> map_of (members (f ! i)) n = Some t" by simp
  with assms(1) show "lo \<le> t \<and> t < hi" unfolding region_closed_def by blast
qed

lemma grows_trans:
  assumes a: "grows g f f1" and b: "grows g f1 f2" and g: "g < length f"
  shows "grows g f f2"
proof -
  have len: "length f \<le> length f1" "length f1 \<le> length f2"
    using a b by (simp_all add: grows_def)
  have fr1: "\<forall>i < length f. i \<noteq> g \<longrightarrow> f1 ! i = f ! i"
    using a unfolding grows_def by blast
  have fr2: "\<forall>i < length f1. i \<noteq> g \<longrightarrow> f2 ! i = f1 ! i"
    using b unfolding grows_def by blast
  have fr: "\<forall>i < length f. i \<noteq> g \<longrightarrow> f2 ! i = f ! i"
  proof (intro allI impI)
    fix i assume i: "i < length f" "i \<noteq> g"
    then have "f2 ! i = f1 ! i" using fr2 len by simp
    with i fr1 show "f2 ! i = f ! i" by simp
  qed
  have "region_closed f2 (length f) (length f1)"
  proof (rule region_closed_cong)
    show "region_closed f1 (length f) (length f1)" using a by (simp add: grows_def)
    show "\<forall>i. length f \<le> i \<and> i < length f1 \<longrightarrow> f2 ! i = f1 ! i"
      using fr2 g by auto
  qed
  moreover have "region_closed f2 (length f1) (length f2)" using b by (simp add: grows_def)
  ultimately have rc: "region_closed f2 (length f) (length f2)"
    using len by (rule region_closed_union)
  have m1: "\<forall>n t. map_of (members (f ! g)) n = Some t \<longrightarrow> map_of (members (f2 ! g)) n = Some t"
    using a b unfolding grows_def by blast
  have m2: "\<forall>n t. map_of (members (f2 ! g)) n = Some t \<longrightarrow>
           map_of (members (f ! g)) n = Some t \<or> (length f \<le> t \<and> t < length f2)"
  proof (intro allI impI)
    fix n t
    assume "map_of (members (f2 ! g)) n = Some t"
    with b have "map_of (members (f1 ! g)) n = Some t \<or> (length f1 \<le> t \<and> t < length f2)"
      unfolding grows_def by blast
    then show "map_of (members (f ! g)) n = Some t \<or> (length f \<le> t \<and> t < length f2)"
    proof
      assume "map_of (members (f1 ! g)) n = Some t"
      with a have "map_of (members (f ! g)) n = Some t \<or> (length f \<le> t \<and> t < length f1)"
        unfolding grows_def by blast
      with len show ?thesis by auto
    next
      assume "length f1 \<le> t \<and> t < length f2"
      with len show ?thesis by auto
    qed
  qed
  show ?thesis
    unfolding grows_def using len fr rc m1 m2 by (intro conjI) (simp, blast+)
qed

lemma h5_create_group_Inr:
  "h5_create_group f g name = Inr (f', t) \<Longrightarrow>
   \<exists>ms as. node f g = Some (Group ms as) \<and> map_of ms name = None \<and> t = length f
     \<and> f' = f[g := Group (ms @ [(name, length f)]) as] @ [Group [] []]"
  unfolding h5_create_group_def by (rule add_member_Inr)

lemma grows_nested:
  assumes cg: "h5_create_group f g k = Inr (f1, t)" and b: "grows t f1 f2"
  shows "grows g f f2"
proof -
  from h5_create_group_Inr [OF cg] obtain ms as where
    g: "node f g = Some (Group ms as)" and free: "map_of ms k = None" and t: "t = length f"
    and f1: "f1 = f[g := Group (ms @ [(k, length f)]) as] @ [Group [] []]"
    by blast
  have gl: "g < length f" using g by (rule node_Some_less)
  have fg: "f ! g = Group ms as" using g by (simp add: node_def split: if_splits)
  have l1: "length f1 = length f + 1" by (simp add: f1)
  have len: "length f1 \<le> length f2" using b by (simp add: grows_def)
  have fr2: "\<forall>i < length f1. i \<noteq> t \<longrightarrow> f2 ! i = f1 ! i" using b unfolding grows_def by blast
  have f1g: "f1 ! g = Group (ms @ [(k, length f)]) as" using gl by (simp add: f1 nth_append)
  have f2g: "f2 ! g = Group (ms @ [(k, length f)]) as"
    using fr2 gl l1 t f1g by simp
  have f1t: "f1 ! t = Group [] []" by (simp add: f1 t nth_append)
  have fr: "\<forall>i < length f. i \<noteq> g \<longrightarrow> f2 ! i = f ! i"
  proof (intro allI impI)
    fix i assume i: "i < length f" "i \<noteq> g"
    then have "f2 ! i = f1 ! i" using fr2 l1 t by simp
    also have "\<dots> = f ! i" using i by (simp add: f1 nth_append)
    finally show "f2 ! i = f ! i" .
  qed
  have rc2: "region_closed f2 (length f1) (length f2)" using b by (simp add: grows_def)
  have rc: "region_closed f2 (length f) (length f2)"
    unfolding region_closed_def
  proof (intro allI impI)
    fix i n c
    assume h: "length f \<le> i \<and> i < length f2 \<and> map_of (members (f2 ! i)) n = Some c"
    show "length f \<le> c \<and> c < length f2"
    proof (cases "i = t")
      case True
      with h b have "map_of (members (f1 ! t)) n = Some c \<or> (length f1 \<le> c \<and> c < length f2)"
        unfolding grows_def by blast
      with f1t l1 show ?thesis by simp
    next
      case False
      with h t l1 have "length f1 \<le> i" by simp
      with h rc2 have "length f1 \<le> c \<and> c < length f2" unfolding region_closed_def by blast
      with l1 show ?thesis by simp
    qed
  qed
  have mo: "map_of (ms @ [(k, length f)]) n = (if n = k then Some (length f) else map_of ms n)" for n
    using free by (simp add: map_add_def split: option.splits)
  have m1: "\<forall>n c. map_of (members (f ! g)) n = Some c \<longrightarrow> map_of (members (f2 ! g)) n = Some c"
    using free by (simp add: fg f2g mo del: map_of_append)
  have m2: "\<forall>n c. map_of (members (f2 ! g)) n = Some c \<longrightarrow>
           map_of (members (f ! g)) n = Some c \<or> (length f \<le> c \<and> c < length f2)"
    using len l1 by (simp add: fg f2g mo del: map_of_append)
  have "length f \<le> length f2" using len l1 by simp
  then show ?thesis
    unfolding grows_def using fr rc m1 m2 by (intro conjI) (simp, blast+)
qed

section \<open>Where a leaf of the mapping ends up\<close>

lemma copy_leaves_grows:
  "\<forall>f g k v f1. leaf f g k v = Inr f1 \<longrightarrow> grows g f f1 \<and> g < length f \<Longrightarrow>
   copy_leaves leaf m g f = Inr f' \<Longrightarrow> g < length f \<Longrightarrow> grows g f f'"
proof (induction leaf m g f arbitrary: f' rule: copy_leaves.induct)
  case (1 leaf g f)
  then show ?case by (simp add: copy_leaves.simps grows_refl)
next
  case (2 leaf k v rest g f)
  show ?case
  proof (cases "is_mapping v")
    case True
    then obtain m where v: "v = PDict m" by (auto simp: is_mapping_def split: pyval.splits)
    note lg = "2.prems"(1)
    from "2.prems"(2) obtain f1 t f2 where
      cg: "h5_create_group f g k = Inr (f1, t)"
      and sub: "copy_leaves leaf m t f1 = Inr f2"
      and rest: "copy_leaves leaf rest g f2 = Inr f'"
      by (auto simp: v copy_leaves.simps split: sum.splits)
    from h5_create_group_Inr [OF cg] have t: "t < length f1" by auto
    have g1: "grows t f1 f2" using "2.IH"(8) [OF v cg refl lg sub t] .
    have g2: "grows g f f2" using grows_nested [OF cg g1] .
    then have "g < length f2" using "2.prems"(3) by (simp add: grows_def)
    from "2.IH"(9) [OF v cg refl sub lg rest this]
    have "grows g f2 f'" .
    from grows_trans [OF g2 this "2.prems"(3)] show ?thesis .
  next
    case False
    note lg = "2.prems"(1)
    from False "2.prems"(2) obtain f1 where
      lf: "leaf f g k v = Inr f1" and rest: "copy_leaves leaf rest g f1 = Inr f'"
      by (cases v) (auto simp: copy_leaves.simps is_mapping_def split: sum.splits)
    from lg lf have g1: "grows g f f1" by blast
    then have gl: "g < length f1" using "2.prems"(3) by (simp add: grows_def)
    have "grows g f1 f'"
      using False "2.IH"(1-7) lf lg rest gl
      by (cases v) (simp_all add: is_mapping_def)
    from grows_trans [OF g1 this "2.prems"(3)] show ?thesis .
  qed
qed

lemma h5_getitem_member:
  "g < length f \<Longrightarrow> map_of (members (f ! g)) k = Some t \<Longrightarrow> h5_getitem f g k = Inr t"
  by (cases "f ! g") (simp_all add: h5_getitem_def node_def)

lemma h5_getitem_Inr:
  "h5_getitem f g k = Inr t \<Longrightarrow> g < length f \<and> map_of (members (f ! g)) k = Some t"
  by (auto simp: h5_getitem_def node_def split: option.splits h5obj.splits if_splits)

lemma traverse_stable:
  assumes "region_closed f lo hi"
    and "\<forall>i. lo \<le> i \<and> i < hi \<longrightarrow> f' ! i = f ! i"
    and "hi \<le> length f" and "hi \<le> length f'"
  shows "lo \<le> t \<Longrightarrow> t < hi \<Longrightarrow> traverse f t ks = Inr h \<Longrightarrow>
         traverse f' t ks = Inr h \<and> lo \<le> h \<and> h < hi"
proof (induction ks arbitrary: t)
  case Nil
  then show ?case by simp
next
  case (Cons k ks)
  from Cons.prems(3) obtain c where c: "h5_getitem f t k = Inr c" and r: "traverse f c ks = Inr h"
    by (auto split: sum.splits)
  from h5_getitem_Inr [OF c] have m: "map_of (members (f ! t)) k = Some c" by simp
  with assms(1) Cons.prems(1,2) have cr: "lo \<le> c" "c < hi"
    unfolding region_closed_def by blast+
  have "f' ! t = f ! t" using assms(2) Cons.prems(1,2) by blast
  with m have "h5_getitem f' t k = Inr c"
    using Cons.prems(2) assms(4) by (intro h5_getitem_member) simp_all
  with Cons.IH [OF cr r] show ?case by simp
qed

lemma map_of_split:
  "map_of m k = Some v \<Longrightarrow> \<exists>pre post. m = pre @ (k, v) # post \<and> k \<notin> fst ` set pre"
proof (induction m)
  case Nil
  then show ?case by simp
next
  case (Cons a m)
  show ?case
  proof (cases "fst a = k")
    case True
    with Cons.prems have "a = (k, v)" by (cases a) simp
    then have "a # m = [] @ (k, v) # m \<and> k \<notin> fst ` set []" by simp
    then show ?thesis by blast
  next
    case False
    with Cons obtain pre post where "m = pre @ (k, v) # post" "k \<notin> fst ` set pre"
      by (cases a) auto
    with False have "a # m = (a # pre) @ (k, v) # post \<and> k \<notin> fst ` set (a # pre)" by auto
    then show ?thesis by blast
  qed
qed

lemma lookup_path_Cons:
  "rest \<noteq> [] \<Longrightarrow>
   lookup_path m (k # rest) = (case map_of m k of Some (PDict m') \<Rightarrow> lookup_path m' rest | _ \<Rightarrow> None)"
  by (cases rest) (simp_all split: option.splits pyval.splits)

lemma copy_leaves_single_leaf:
  "\<not> is_mapping v \<Longrightarrow> copy_leaves leaf [(k, v)] g f = leaf f g k v"
  by (cases v) (auto simp: copy_leaves.simps is_mapping_def split: sum.splits)

lemma copy_leaves_single_mapping:
  "copy_leaves leaf [(k, PDict m)] g f
     = (case h5_create_group f g k of Inl e \<Rightarrow> Inl e | Inr (f1, t) \<Rightarrow> copy_leaves leaf m t f1)"
  by (auto simp: copy_leaves.simps split: sum.splits)

lemma copy_leaves_path:
  assumes leaf_grows: "\<forall>f g k v f1. leaf f g k v = Inr f1 \<longrightarrow> grows g f f1 \<and> g < length f"
    and Q1: "\<And>f g k v f1. \<not> is_mapping v \<Longrightarrow> leaf f g k v = Inr f1 \<Longrightarrow> Q f1 g k v"
    and Qpres: "\<And>m f g f' k v. Q f g k v \<Longrightarrow> k \<notin> fst ` set m \<Longrightarrow> g < length f \<Longrightarrow>
                  copy_leaves leaf m g f = Inr f' \<Longrightarrow> Q f' g k v"
    and Qlocal: "\<And>f f' h k v lo hi. Q f h k v \<Longrightarrow> lo \<le> h \<Longrightarrow> h < hi \<Longrightarrow> hi \<le> length f \<Longrightarrow>
                  hi \<le> length f' \<Longrightarrow> region_closed f lo hi \<Longrightarrow>
                  \<forall>i. lo \<le> i \<and> i < hi \<longrightarrow> f' ! i = f ! i \<Longrightarrow> Q f' h k v"
  shows "distinct_keys (PDict m) \<Longrightarrow> lookup_path m (ks @ [k]) = Some v \<Longrightarrow> \<not> is_mapping v \<Longrightarrow>
         g < length f \<Longrightarrow> copy_leaves leaf m g f = Inr f' \<Longrightarrow>
         \<exists>h. traverse f' g ks = Inr h \<and> (ks = [] \<and> h = g \<or> length f \<le> h \<and> h < length f')
           \<and> Q f' h k v"
proof (induction ks arbitrary: m g f f')
  case Nil
  from Nil.prems(2) have "map_of m k = Some v" by simp
  from map_of_split [OF this] obtain pre post where
    m: "m = pre @ (k, v) # post" and "k \<notin> fst ` set pre" by blast
  from Nil.prems(1) have kp: "k \<notin> fst ` set post" by (auto simp: m)
  from Nil.prems(5) obtain f1 f2 where
    p1: "copy_leaves leaf pre g f = Inr f1"
    and p2: "leaf f1 g k v = Inr f2"
    and p3: "copy_leaves leaf post g f2 = Inr f'"
    using copy_leaves_append [of leaf pre "(k, v) # post" g f]
      copy_leaves_append [of leaf "[(k, v)]" post g]
      copy_leaves_single_leaf [OF Nil.prems(3), of leaf k g]
    by (auto simp: m split: sum.splits)
  from leaf_grows p2 have "grows g f1 f2 \<and> g < length f1" by blast
  then have gl2: "g < length f2" by (simp add: grows_def)
  from Q1 [OF Nil.prems(3) p2] have "Q f2 g k v" .
  from Qpres [OF this kp gl2 p3] show ?case by simp
next
  case (Cons k0 ks)
  from Cons.prems(2) obtain m' where
    mk: "map_of m k0 = Some (PDict m')" and lp: "lookup_path m' (ks @ [k]) = Some v"
    by (auto simp: lookup_path_Cons split: option.splits pyval.splits)
  from map_of_split [OF mk] obtain pre post where
    m: "m = pre @ (k0, PDict m') # post" and "k0 \<notin> fst ` set pre" by blast
  from Cons.prems(1) have dk: "distinct_keys (PDict m')" by (simp add: m)
  from Cons.prems(5) obtain f1 f1' t f2 where
    p1: "copy_leaves leaf pre g f = Inr f1"
    and cg: "h5_create_group f1 g k0 = Inr (f1', t)"
    and sub: "copy_leaves leaf m' t f1' = Inr f2"
    and p3: "copy_leaves leaf post g f2 = Inr f'"
    using copy_leaves_append [of leaf pre "(k0, PDict m') # post" g f]
      copy_leaves_append [of leaf "[(k0, PDict m')]" post g]
    by (auto simp: m copy_leaves_single_mapping split: sum.splits)
  have g01: "grows g f f1" using copy_leaves_grows [OF leaf_grows p1 Cons.prems(4)] .
  then have l01: "length f \<le> length f1" and gl1: "g < length f1"
    using Cons.prems(4) by (simp_all add: grows_def)
  from h5_create_group_Inr [OF cg] obtain ms gas where
    ng: "node f1 g = Some (Group ms gas)" and free: "map_of ms k0 = None" and t: "t = length f1"
    and f1': "f1' = f1[g := Group (ms @ [(k0, length f1)]) gas] @ [Group [] []]"
    by blast
  have l1: "length f1' = length f1 + 1" by (simp add: f1')
  have tl: "t < length f1'" using t l1 by simp
  have gt: "grows t f1' f2" using copy_leaves_grows [OF leaf_grows sub tl] .
  have g12: "grows g f1 f2" using grows_nested [OF cg gt] .
  then have l12: "length f1' \<le> length f2" and gl2: "g < length f2"
    using gt gl1 by (simp_all add: grows_def)
  have g2': "grows g f2 f'" using copy_leaves_grows [OF leaf_grows p3 gl2] .
  then have l2': "length f2 \<le> length f'" by (simp add: grows_def)
  from Cons.IH [OF dk lp Cons.prems(3) tl sub] obtain h where
    tr: "traverse f2 t ks = Inr h"
    and hr: "ks = [] \<and> h = t \<or> length f1' \<le> h \<and> h < length f2"
    and q: "Q f2 h k v"
    by blast
  have rc: "region_closed f2 (length f1) (length f2)" using g12 by (simp add: grows_def)
  have same: "\<forall>i. length f1 \<le> i \<and> i < length f2 \<longrightarrow> f' ! i = f2 ! i"
    using g2' gl1 unfolding grows_def by auto
  have t_in: "length f1 \<le> t" "t < length f2" using t l1 l12 by simp_all
  from traverse_stable [OF rc same _ l2' t_in tr]
  have tr': "traverse f' t ks = Inr h" and h_in: "length f1 \<le> h" "h < length f2" by simp_all
  have "f1' ! g = Group (ms @ [(k0, length f1)]) gas"
    using gl1 by (simp add: f1' nth_append)
  moreover have "f2 ! g = f1' ! g"
    using gt gl1 l1 t unfolding grows_def by auto
  ultimately have "map_of (members (f2 ! g)) k0 = Some t"
    using free by (simp add: t map_add_def)
  with g2' have "map_of (members (f' ! g)) k0 = Some t" unfolding grows_def by blast
  then have "h5_getitem f' g k0 = Inr t"
    using gl2 l2' by (intro h5_getitem_member) simp_all
  with tr' have "traverse f' g (k0 # ks) = Inr h" by simp
  moreover have "length f \<le> h \<and> h < length f'" using h_in l01 l2' by simp
  moreover have "Q f' h k v"
    using Qlocal [OF q h_in(1) h_in(2) _ l2' rc same] by simp
  ultimately show ?case by blast
qed

section \<open>The dataset copier: the datasets it creates\<close>

lemma h5_create_string_dataset_Inr:
  "h5_create_string_dataset f g name v = Inr (f', t) \<Longrightarrow>
   \<exists>ms as. node f g = Some (Group ms as) \<and> map_of ms name = None \<and> t = length f
     \<and> \<not> has_nul v
     \<and> f' = f[g := Group (ms @ [(name, length f)]) as] @ [Dataset v []]"
  by (auto simp: h5_create_string_dataset_def split: option.splits h5obj.splits if_splits
      dest: add_member_Inr)

lemma add_member_not_TypeError: "add_member f g k obj \<noteq> Inl TypeError"
  by (auto simp: add_member_def split: option.splits h5obj.splits)

lemma h5_create_string_dataset_not_TypeError: "h5_create_string_dataset f g k v \<noteq> Inl TypeError"
  using add_member_not_TypeError [of f g k]
  by (auto simp: h5_create_string_dataset_def split: option.splits h5obj.splits)

lemma h5_create_dataset_TypeError:
  "h5_create_dataset L f g k v = Inl TypeError \<Longrightarrow> data_exc L v = Some TypeError"
  using add_member_not_TypeError [of f g k]
  by (auto simp: h5_create_dataset_def split: option.splits h5obj.splits)

lemma create_leaf_dataset_Inr:
  assumes "create_leaf_dataset L f g k val = Inr (f', t)"
  shows "\<exists>d ms as. node f g = Some (Group ms as) \<and> map_of ms k = None \<and> t = length f
           \<and> f' = f[g := Group (ms @ [(k, length f)]) as] @ [Dataset d []]
           \<and> (if str_or_str_sequence val then d = val \<and> \<not> has_nul val
               else (data_exc L val = None \<and> d = val
                     \<or> data_exc L val = Some TypeError \<and> json_dumps val = Inr (case d of PStr s \<Rightarrow> s | _ \<Rightarrow> [])
                        \<and> is_str d \<and> \<not> has_nul d))"
proof (cases "str_or_str_sequence val")
  case True
  with assms have "h5_create_string_dataset f g k val = Inr (f', t)"
    using h5_create_string_dataset_not_TypeError [of f g k val]
    by (auto simp: create_leaf_dataset_def split: sum.splits if_splits)
  from h5_create_string_dataset_Inr [OF this] True show ?thesis by auto
next
  case False
  show ?thesis
  proof (cases "h5_create_dataset L f g k val")
    case (Inr r)
    with assms False have "h5_create_dataset L f g k val = Inr (f', t)"
      by (simp add: create_leaf_dataset_def)
    from h5_create_dataset_Inr [OF this] False show ?thesis by auto
  next
    case (Inl e)
    with assms False obtain js where e: "e = TypeError" and js: "json_dumps val = Inr js"
      and c: "h5_create_string_dataset f g k (PStr js) = Inr (f', t)"
      by (auto simp: create_leaf_dataset_def split: sum.splits if_splits)
    from Inl e have "data_exc L val = Some TypeError" by (simp add: h5_create_dataset_TypeError)
    with h5_create_string_dataset_Inr [OF c] False js show ?thesis
      by (auto simp: is_str_def)
  qed
qed

lemma dataset_leaf_Inr:
  assumes "dataset_leaf L f g k v = Inr f'"
  shows "\<exists>d ms as. leaf_data L v = Inr d \<and> node f g = Some (Group ms as) \<and> map_of ms k = None
           \<and> f' = f[g := Group (ms @ [(k, length f)]) as] @ [Dataset d []]"
proof -
  from assms obtain t where "create_leaf_dataset L f g k (normalize_leaf v) = Inr (f', t)"
    by (auto simp: dataset_leaf_def split: sum.splits)
  from create_leaf_dataset_Inr [OF this] obtain d ms as where
    a: "node f g = Some (Group ms as)" "map_of ms k = None"
       "f' = f[g := Group (ms @ [(k, length f)]) as] @ [Dataset d []]"
    and b: "if str_or_str_sequence (normalize_leaf v) then d = normalize_leaf v \<and> \<not> has_nul (normalize_leaf v)
            else (data_exc L (normalize_leaf v) = None \<and> d = normalize_leaf v
                  \<or> data_exc L (normalize_leaf v) = Some TypeError
                     \<and> json_dumps (normalize_leaf v) = Inr (case d of PStr s \<Rightarrow> s | _ \<Rightarrow> [])
                     \<and> is_str d \<and> \<not> has_nul d)"
    by blast
  from b have "leaf_data L v = Inr d"
    by (auto simp: leaf_data_def Let_def is_str_def split: if_splits pyval.splits)
  with a show ?thesis by blast
qed

lemma grows_new_member:
  assumes g: "node f g = Some (Group ms as)" and free: "map_of ms k = None"
    and obj: "members obj = []"
  shows "grows g f (f[g := Group (ms @ [(k, length f)]) as] @ [obj])"
proof -
  let ?f' = "f[g := Group (ms @ [(k, length f)]) as] @ [obj]"
  have gl: "g < length f" using g by (rule node_Some_less)
  have fg: "f ! g = Group ms as" using g by (simp add: node_def split: if_splits)
  have f'g: "?f' ! g = Group (ms @ [(k, length f)]) as" using gl by (simp add: nth_append)
  have mo: "map_of (ms @ [(k, length f)]) n = (if n = k then Some (length f) else map_of ms n)" for n
    using free by (simp add: map_add_def split: option.splits)
  have fr: "\<forall>i < length f. i \<noteq> g \<longrightarrow> ?f' ! i = f ! i" by (simp add: nth_append)
  have rc: "region_closed ?f' (length f) (length ?f')"
    unfolding region_closed_def
  proof (intro allI impI)
    fix i n t
    assume h: "length f \<le> i \<and> i < length ?f' \<and> map_of (members (?f' ! i)) n = Some t"
    then have "i = length f" by simp
    then have "?f' ! i = obj" by (simp add: nth_append)
    with h obj show "length f \<le> t \<and> t < length ?f'" by simp
  qed
  have m1: "\<forall>n t. map_of (members (f ! g)) n = Some t \<longrightarrow> map_of (members (?f' ! g)) n = Some t"
    unfolding f'g fg using free by (simp add: mo del: map_of_append)
  have m2: "\<forall>n t. map_of (members (?f' ! g)) n = Some t \<longrightarrow>
           map_of (members (f ! g)) n = Some t \<or> (length f \<le> t \<and> t < length ?f')"
    unfolding f'g fg by (simp add: mo del: map_of_append)
  have "length f \<le> length ?f'" by simp
  then show ?thesis
    unfolding grows_def using fr rc m1 m2 by (intro conjI) blast+
qed

lemma dataset_leaf_grows:
  "\<forall>f g k v f1. dataset_leaf L f g k v = Inr f1 \<longrightarrow> grows g f f1 \<and> g < length f"
proof (intro allI impI)
  fix f g k v f1
  assume "dataset_leaf L f g k v = Inr f1"
  from dataset_leaf_Inr [OF this] obtain d ms as where
    a: "node f g = Some (Group ms as)" "map_of ms k = None"
       "f1 = f[g := Group (ms @ [(k, length f)]) as] @ [Dataset d []]"
    by blast
  from grows_new_member [OF a(1,2), of "Dataset d []"] a(3) node_Some_less [OF a(1)]
  show "grows g f f1 \<and> g < length f" by simp
qed

lemma holds_dataset_leaf:
  assumes "dataset_leaf L f g k v = Inr f1"
  shows "\<exists>d. leaf_data L v = Inr d \<and> holds_dataset f1 g k d"
proof -
  from dataset_leaf_Inr [OF assms] obtain d ms as where
    d: "leaf_data L v = Inr d"
    and a: "node f g = Some (Group ms as)" "map_of ms k = None"
       "f1 = f[g := Group (ms @ [(k, length f)]) as] @ [Dataset d []]"
    by blast
  have gl: "g < length f" using a(1) by (rule node_Some_less)
  have "f1 ! g = Group (ms @ [(k, length f)]) as" using gl by (simp add: a(3) nth_append)
  moreover have "f1 ! length f = Dataset d []" by (simp add: a(3) nth_append)
  ultimately have "holds_dataset f1 g k d"
    using a(2) by (simp add: holds_dataset_def a(3) map_add_def)
  with d show ?thesis by blast
qed

lemma holds_dataset_grows:
  assumes "holds_dataset f g k d" and "grows g f f'" and "g < length f"
  shows "holds_dataset f' g k d"
proof -
  from assms(1) obtain c where c: "map_of (members (f ! g)) k = Some c" "c < length f" "f ! c = Dataset d []"
    by (auto simp: holds_dataset_def split: option.splits)
  have "c \<noteq> g" using c by auto
  with assms(2) c(2) have "f' ! c = f ! c" unfolding grows_def by blast
  moreover from assms(2) c(1) have "map_of (members (f' ! g)) k = Some c" unfolding grows_def by blast
  moreover from assms(2) c(2) have "c < length f'" by (simp add: grows_def)
  ultimately show ?thesis using c(3) by (simp add: holds_dataset_def)
qed

lemma holds_dataset_local:
  assumes "holds_dataset f h k d" and "lo \<le> h" and "h < hi" and "hi \<le> length f'"
    and "region_closed f lo hi" and "\<forall>i. lo \<le> i \<and> i < hi \<longrightarrow> f' ! i = f ! i"
  shows "holds_dataset f' h k d"
proof -
  from assms(1) obtain c where c: "map_of (members (f ! h)) k = Some c" "f ! c = Dataset d []"
    by (auto simp: holds_dataset_def split: option.splits)
  from assms(5) assms(2,3) c(1) have cr: "lo \<le> c" "c < hi" unfolding region_closed_def by blast+
  with assms(6) have "f' ! c = f ! c" by blast
  moreover from assms(6) assms(2,3) have "f' ! h = f ! h" by blast
  ultimately show ?thesis using c cr assms(4) by (simp add: holds_dataset_def)
qed

lemma traverse_append:
  "traverse f g (xs @ ys) = (case traverse f g xs of Inl e \<Rightarrow> Inl e | Inr h \<Rightarrow> traverse f h ys)"
  by (induction xs arbitrary: g) (auto split: sum.splits)

lemma copy_leaves_valid_group:
  assumes "\<forall>f g k v f1. leaf f g k v = Inr f1 \<longrightarrow> grows g f f1 \<and> g < length f"
    and "m \<noteq> []" and "copy_leaves leaf m g f = Inr f'"
  shows "g < length f"
proof -
  from assms(2) obtain k v rest where m: "m = (k, v) # rest" by (cases m) auto
  show ?thesis
  proof (cases "is_mapping v")
    case True
    then obtain m' where v: "v = PDict m'" by (auto simp: is_mapping_def split: pyval.splits)
    with assms(3) obtain f1 t where "h5_create_group f g k = Inr (f1, t)"
      by (auto simp: m copy_leaves.simps split: sum.splits)
    from h5_create_group_Inr [OF this] show ?thesis by (auto dest: node_Some_less)
  next
    case False
    with assms(3) obtain f1 where "leaf f g k v = Inr f1"
      by (cases v) (auto simp: m copy_leaves.simps is_mapping_def split: sum.splits)
    with assms(1) show ?thesis by blast
  qed
qed

lemma lookup_path_nonempty: "lookup_path m p = Some v \<Longrightarrow> m \<noteq> []"
  by (induction m p rule: lookup_path.induct) (auto split: option.splits)

lemma datasets_leaf_at_path:
  assumes "distinct_keys (PDict m)" and "lookup_path m (ks @ [k]) = Some v" and "\<not> is_mapping v"
    and "copy_metadata_to_h5_datasets L m g f = Inr f'"
  shows "\<exists>c d. traverse f' g (ks @ [k]) = Inr c \<and> node f' c = Some (Dataset d [])
           \<and> leaf_data L v = Inr d"
proof -
  have run: "copy_leaves (dataset_leaf L) m g f = Inr f'"
    using assms(4) by (simp add: copy_datasets_is_copy_leaves)
  have gl: "g < length f"
    using copy_leaves_valid_group [OF dataset_leaf_grows lookup_path_nonempty [OF assms(2)] run] .
  have gr: "grows g f f'" using copy_leaves_grows [OF dataset_leaf_grows run gl] .
  have "\<exists>h. traverse f' g ks = Inr h \<and> (ks = [] \<and> h = g \<or> length f \<le> h \<and> h < length f')
           \<and> (\<exists>d. leaf_data L v = Inr d \<and> holds_dataset f' h k d)"
  proof (rule copy_leaves_path [where leaf = "dataset_leaf L"
        and Q = "\<lambda>f h k v. \<exists>d. leaf_data L v = Inr d \<and> holds_dataset f h k d",
        OF dataset_leaf_grows _ _ _ assms(1,2,3) gl run])
    fix f g k v f1
    assume "dataset_leaf L f g k v = Inr f1"
    then show "\<exists>d. leaf_data L v = Inr d \<and> holds_dataset f1 g k d" by (rule holds_dataset_leaf)
  next
    fix m f g f' k v
    assume q: "\<exists>d. leaf_data L v = Inr d \<and> holds_dataset f g k d" and gl: "g < length f"
      and run: "copy_leaves (dataset_leaf L) m g f = Inr f'"
    from copy_leaves_grows [OF dataset_leaf_grows run gl] q gl
    show "\<exists>d. leaf_data L v = Inr d \<and> holds_dataset f' g k d"
      by (blast intro: holds_dataset_grows)
  next
    fix f f' h k v lo hi
    assume "\<exists>d. leaf_data L v = Inr d \<and> holds_dataset f h k d" "lo \<le> h" "h < hi"
      "hi \<le> length f'" "region_closed f lo hi" "\<forall>i. lo \<le> i \<and> i < hi \<longrightarrow> f' ! i = f ! i"
    then show "\<exists>d. leaf_data L v = Inr d \<and> holds_dataset f' h k d"
      by (blast intro: holds_dataset_local)
  qed
  then obtain h d where tr: "traverse f' g ks = Inr h"
    and hl: "ks = [] \<and> h = g \<or> length f \<le> h \<and> h < length f'"
    and d: "leaf_data L v = Inr d" and hd: "holds_dataset f' h k d"
    by blast
  have hl': "h < length f'" using hl gl gr by (auto simp: grows_def)
  from hd obtain c where c: "map_of (members (f' ! h)) k = Some c" "c < length f'" "f' ! c = Dataset d []"
    by (auto simp: holds_dataset_def split: option.splits)
  have "h5_getitem f' h k = Inr c" using hl' c(1) by (rule h5_getitem_member)
  with tr have "traverse f' g (ks @ [k]) = Inr c" by (simp add: traverse_append)
  moreover have "node f' c = Some (Dataset d [])" using c by (simp add: node_def)
  ultimately show ?thesis using d by blast
qed

section \<open>The attribute copier: the attributes it sets\<close>

lemma h5_attrs_setitem_Inr:
  "h5_attrs_setitem L f g k v = Inr f' \<Longrightarrow>
   \<exists>obj. node f g = Some obj \<and> attr_exc L v = None \<and> f' = f[g := set_attr k v obj]"
  by (auto simp: h5_attrs_setitem_def split: option.splits)

lemma members_set_attr [simp]: "members (set_attr k v obj) = members obj"
  by (cases obj) simp_all

lemma attrs_set_attr [simp]: "attrs (set_attr k v obj) = AList.update k v (attrs obj)"
  by (cases obj) simp_all

lemma attr_leaf_Inr:
  assumes "attr_leaf L f g k v = Inr f1"
  shows "\<exists>val. leaf_attr L v = Inr val \<and> g < length f \<and> f1 = f[g := set_attr k val (f ! g)]"
proof -
  let ?val = "if v = PNone then PStr ''None'' else v"
  show ?thesis
  proof (cases "h5_attrs_setitem L f g k ?val")
    case (Inr f2)
    with assms have "f2 = f1" by (simp add: attr_leaf_def Let_def)
    with h5_attrs_setitem_Inr [OF Inr] show ?thesis
      by (auto simp: leaf_attr_def Let_def node_def split: if_splits)
  next
    case (Inl e)
    with assms obtain js where e: "e = TypeError" and js: "json_dumps ?val = Inr js"
      and s: "h5_attrs_setitem L f g k (PStr js) = Inr f1"
      by (auto simp: attr_leaf_def Let_def split: sum.splits if_splits)
    from Inl e have "attr_exc L ?val = Some TypeError"
      by (auto simp: h5_attrs_setitem_def split: option.splits)
    with h5_attrs_setitem_Inr [OF s] js show ?thesis
      by (auto simp: leaf_attr_def Let_def node_def split: if_splits)
  qed
qed

lemma attr_leaf_grows:
  "\<forall>f g k v f1. attr_leaf L f g k v = Inr f1 \<longrightarrow> grows g f f1 \<and> g < length f"
proof (intro allI impI)
  fix f g k v f1
  assume "attr_leaf L f g k v = Inr f1"
  from attr_leaf_Inr [OF this] obtain val where
    "g < length f" "f1 = f[g := set_attr k val (f ! g)]" by blast
  then show "grows g f f1 \<and> g < length f"
    by (simp add: grows_def region_closed_def)
qed

lemma attrs_frame:
  "k \<notin> fst ` set m \<Longrightarrow> copy_leaves (attr_leaf L) m g f = Inr f' \<Longrightarrow> g < length f \<Longrightarrow>
   map_of (attrs (f' ! g)) k = map_of (attrs (f ! g)) k"
proof (induction m arbitrary: f)
  case Nil
  then show ?case by (simp add: copy_leaves.simps)
next
  case (Cons a m)
  obtain k0 v0 where a: "a = (k0, v0)" by (cases a)
  from Cons.prems(1) have k0: "k0 \<noteq> k" and km: "k \<notin> fst ` set m" by (auto simp: a)
  from Cons.prems(2) obtain f1 where
    one: "copy_leaves (attr_leaf L) [(k0, v0)] g f = Inr f1"
    and rest: "copy_leaves (attr_leaf L) m g f1 = Inr f'"
    using copy_leaves_append [of "attr_leaf L" "[(k0, v0)]" m g f]
    by (auto simp: a split: sum.splits)
  have g1: "grows g f f1" using copy_leaves_grows [OF attr_leaf_grows one Cons.prems(3)] .
  then have gl1: "g < length f1" using Cons.prems(3) by (simp add: grows_def)
  have "map_of (attrs (f1 ! g)) k = map_of (attrs (f ! g)) k"
  proof (cases "is_mapping v0")
    case True
    then obtain m' where v0: "v0 = PDict m'" by (auto simp: is_mapping_def split: pyval.splits)
    from one obtain f0 t where cg: "h5_create_group f g k0 = Inr (f0, t)"
      and sub: "copy_leaves (attr_leaf L) m' t f0 = Inr f1"
      by (auto simp: v0 copy_leaves_single_mapping split: sum.splits)
    from h5_create_group_Inr [OF cg] obtain ms gas where
      ng: "node f g = Some (Group ms gas)" and t: "t = length f"
      and f0: "f0 = f[g := Group (ms @ [(k0, length f)]) gas] @ [Group [] []]"
      by blast
    have fg: "f ! g = Group ms gas" using ng by (simp add: node_def split: if_splits)
    have tl: "t < length f0" by (simp add: f0 t)
    have "grows t f0 f1" using copy_leaves_grows [OF attr_leaf_grows sub tl] .
    then have "f1 ! g = f0 ! g"
      using Cons.prems(3) t unfolding grows_def by (auto simp: f0)
    also have "f0 ! g = Group (ms @ [(k0, length f)]) gas"
      using Cons.prems(3) by (simp add: f0 nth_append)
    finally show ?thesis by (simp add: fg)
  next
    case False
    with one have "attr_leaf L f g k0 v0 = Inr f1" by (simp add: copy_leaves_single_leaf)
    from attr_leaf_Inr [OF this] obtain val where "f1 = f[g := set_attr k0 val (f ! g)]" by blast
    then show ?thesis
      using Cons.prems(3) k0 by (simp add: update_conv')
  qed
  with Cons.IH [OF km rest gl1] show ?case by simp
qed

lemma attrs_leaf_at_path:
  assumes "distinct_keys (PDict m)" and "lookup_path m (ks @ [k]) = Some v" and "\<not> is_mapping v"
    and "copy_metadata_to_h5_attrs L m g f = Inr f'"
  shows "\<exists>h val. traverse f' g ks = Inr h \<and> h < length f'
           \<and> map_of (attrs (f' ! h)) k = Some val \<and> leaf_attr L v = Inr val"
proof -
  have run: "copy_leaves (attr_leaf L) m g f = Inr f'"
    using assms(4) by (simp add: copy_attrs_is_copy_leaves)
  have gl: "g < length f"
    using copy_leaves_valid_group [OF attr_leaf_grows lookup_path_nonempty [OF assms(2)] run] .
  have gr: "grows g f f'" using copy_leaves_grows [OF attr_leaf_grows run gl] .
  have "\<exists>h. traverse f' g ks = Inr h \<and> (ks = [] \<and> h = g \<or> length f \<le> h \<and> h < length f')
           \<and> (\<exists>val. leaf_attr L v = Inr val \<and> map_of (attrs (f' ! h)) k = Some val)"
  proof (rule copy_leaves_path [where leaf = "attr_leaf L"
        and Q = "\<lambda>f h k v. \<exists>val. leaf_attr L v = Inr val \<and> map_of (attrs (f ! h)) k = Some val",
        OF attr_leaf_grows _ _ _ assms(1,2,3) gl run])
    fix f g k v f1
    assume "attr_leaf L f g k v = Inr f1"
    from attr_leaf_Inr [OF this]
    show "\<exists>val. leaf_attr L v = Inr val \<and> map_of (attrs (f1 ! g)) k = Some val"
      by (auto simp: update_conv')
  next
    fix m f g f' k v
    assume "\<exists>val. leaf_attr L v = Inr val \<and> map_of (attrs (f ! g)) k = Some val"
      "k \<notin> fst ` set m" "g < length f" "copy_leaves (attr_leaf L) m g f = Inr f'"
    then show "\<exists>val. leaf_attr L v = Inr val \<and> map_of (attrs (f' ! g)) k = Some val"
      using attrs_frame [of k m L g f f'] by auto
  next
    fix f f' h k v lo hi
    assume "\<exists>val. leaf_attr L v = Inr val \<and> map_of (attrs (f ! h)) k = Some val" "lo \<le> h" "h < hi"
      "\<forall>i. lo \<le> i \<and> i < hi \<longrightarrow> f' ! i = f ! i"
    then show "\<exists>val. leaf_attr L v = Inr val \<and> map_of (attrs (f' ! h)) k = Some val"
      by auto
  qed
  then obtain h val where "traverse f' g ks = Inr h"
    and hl: "ks = [] \<and> h = g \<or> length f \<le> h \<and> h < length f'"
    and "leaf_attr L v = Inr val" "map_of (attrs (f' ! h)) k = Some val"
    by blast
  moreover have "h < length f'" using hl gl gr by (auto simp: grows_def)
  ultimately show ?thesis by blast
qed

section \<open>The JSON text\<close>

lemma hex_digit_not_nul: "hex_digit n \<noteq> CHR 0x00"
proof -
  have "n mod 16 < length ''0123456789abcdef''" by simp
  then have "hex_digit n \<in> set ''0123456789abcdef''"
    unfolding hex_digit_def by (rule nth_mem)
  then show ?thesis by auto
qed

lemma escape_char_no_nul: "CHR 0x00 \<notin> set (escape_char c)"
  using hex_digit_not_nul [of "of_char c div 16"] hex_digit_not_nul [of "of_char c"]
  by (auto simp: escape_char_def Let_def)

lemma json_str_no_nul: "CHR 0x00 \<notin> set (json_str s)"
  by (auto simp: json_str_def escape_char_no_nul)

lemma digit_char_not_nul: "(n::nat) < 10 \<Longrightarrow> char_of (48 + n) \<noteq> CHR 0x00"
proof
  assume n: "n < 10" and "char_of (48 + n) = CHR 0x00"
  then have "of_char (char_of (48 + n)) = (of_char CHR 0x00 :: nat)" by simp
  then have "(48 + n) mod 256 = (0::nat)" by simp
  with n show False by simp
qed

lemma digits_no_nul: "CHR 0x00 \<notin> set (digits n)"
proof (induction n rule: digits.induct)
  case (1 n)
  show ?case
  proof (cases "n < 10")
    case True
    then show ?thesis using digit_char_not_nul [of n] by (subst digits.simps) auto
  next
    case False
    have "n mod 10 < 10" by simp
    from digit_char_not_nul [OF this] "1.IH" [OF False] False show ?thesis
      by (subst digits.simps) auto
  qed
qed

lemma repr_int_no_nul: "CHR 0x00 \<notin> set (repr_int i)"
  by (simp add: repr_int_def digits_no_nul)

lemma join_no_nul:
  "CHR 0x00 \<notin> set sep \<Longrightarrow> \<forall>x \<in> set xs. CHR 0x00 \<notin> set x \<Longrightarrow> CHR 0x00 \<notin> set (join sep xs)"
  by (induction sep xs rule: join.induct) auto

lemma json_text_no_nul: "CHR 0x00 \<notin> set (json_text v)"
proof (induction v)
  case (PDict m)
  have "\<forall>x \<in> set (map (\<lambda>kv. json_str (fst kv) @ '': '' @ json_text (snd kv)) m). CHR 0x00 \<notin> set x"
  proof
    fix x assume "x \<in> set (map (\<lambda>kv. json_str (fst kv) @ '': '' @ json_text (snd kv)) m)"
    then obtain kv where kv: "kv \<in> set m" and x: "x = json_str (fst kv) @ '': '' @ json_text (snd kv)"
      by auto
    have "snd kv \<in> Basic_BNFs.snds kv" by (cases kv) simp
    from PDict [OF kv this] show "CHR 0x00 \<notin> set x"
      by (simp add: x json_str_no_nul)
  qed
  then show ?case using join_no_nul [of "'', ''"] by simp
next
  case (PList xs)
  then have "\<forall>x \<in> set (map json_text xs). CHR 0x00 \<notin> set x" by auto
  then show ?case using join_no_nul [of "'', ''"] by simp
next
  case (PTuple xs)
  then have "\<forall>x \<in> set (map json_text xs). CHR 0x00 \<notin> set x" by auto
  then show ?case using join_no_nul [of "'', ''"] by simp
qed (simp_all add: repr_int_no_nul json_str_no_nul)

section \<open>Nulls and the NUL byte\<close>

lemma leaf_attr_None: "leaf_attr L PNone = Inr (PStr ''None'')"
  by (simp add: leaf_attr_def attr_exc_def)

lemma leaf_data_None: "leaf_data L PNone = Inr (PStr ''None'')"
  by (simp add: leaf_data_def normalize_leaf_def str_or_str_sequence_def)

lemma leaf_data_nul_byte: "leaf_data L (PBytes [CHR 0x00]) = Inr (PStr [])"
  by (simp add: leaf_data_def normalize_leaf_def str_or_str_sequence_def)

lemma copy_attrs_None_step:
  assumes "node f g = Some obj"
  shows "copy_metadata_to_h5_attrs L ((k, PNone) # rest) g f
           = copy_metadata_to_h5_attrs L rest g (f[g := set_attr k (PStr ''None'') obj])"
  using assms
  by (simp add: copy_metadata_to_h5_attrs.simps h5_attrs_setitem_def attr_exc_def)

lemma create_string_leaf:
  assumes "node f g = Some (Group ms as)" and "map_of ms k = None"
    and "str_or_str_sequence val" and "\<not> has_nul val"
  shows "create_leaf_dataset L f g k val
           = Inr (f[g := Group (ms @ [(k, length f)]) as] @ [Dataset val []], length f)"
  using assms
  by (simp add: create_leaf_dataset_def h5_create_string_dataset_def add_member_def)

lemma copy_datasets_None_step:
  assumes "node f g = Some (Group ms as)" and "map_of ms k = None"
  shows "copy_metadata_to_h5_datasets L ((k, PNone) # rest) g f
           = copy_metadata_to_h5_datasets L rest g
               (f[g := Group (ms @ [(k, length f)]) as] @ [Dataset (PStr ''None'') []])"
  using create_string_leaf [OF assms, of "PStr ''None''" L]
  by (simp add: copy_metadata_to_h5_datasets.simps normalize_leaf_def str_or_str_sequence_def)

lemma copy_datasets_nul_byte_step:
  assumes "node f g = Some (Group ms as)" and "map_of ms k = None"
  shows "copy_metadata_to_h5_datasets L ((k, PBytes [CHR 0x00]) # rest) g f
           = copy_metadata_to_h5_datasets L rest g
               (f[g := Group (ms @ [(k, length f)]) as] @ [Dataset (PStr []) []])"
  using create_string_leaf [OF assms, of "PStr []" L]
  by (simp add: copy_metadata_to_h5_datasets.simps normalize_leaf_def str_or_str_sequence_def)

text \<open>
  Claim C8. Let the flat metadata mapping hold \<open>None\<close> at a path of keys, at any depth.
  Whenever the attribute copier returns, the group at the path carries the attribute of
  that key with the value \<open>"None"\<close>; whenever the dataset copier returns, the path leads to
  a dataset that holds \<open>"None"\<close>. Neither raises at the item itself: on a node of the file
  the attribute copier sets the attribute and goes on, and in a group where the name is
  free the dataset copier creates the dataset and goes on.
\<close>

theorem null_stored_as_None:
  assumes "distinct_keys (PDict m)" and "lookup_path m (ks @ [k]) = Some PNone"
  shows "(\<forall>f'. copy_metadata_to_h5_attrs L m g f = Inr f' \<longrightarrow>
            (\<exists>h. traverse f' g ks = Inr h \<and> h < length f'
               \<and> map_of (attrs (f' ! h)) k = Some (PStr ''None'')))
       \<and> (\<forall>f'. copy_metadata_to_h5_datasets L m g f = Inr f' \<longrightarrow>
            (\<exists>c. traverse f' g (ks @ [k]) = Inr c \<and> node f' c = Some (Dataset (PStr ''None'') [])))
       \<and> (\<forall>f0 g0 obj rest. node f0 g0 = Some obj \<longrightarrow>
            copy_metadata_to_h5_attrs L ((k, PNone) # rest) g0 f0
              = copy_metadata_to_h5_attrs L rest g0 (f0[g0 := set_attr k (PStr ''None'') obj]))
       \<and> (\<forall>f0 g0 ms as rest. node f0 g0 = Some (Group ms as) \<and> map_of ms k = None \<longrightarrow>
            copy_metadata_to_h5_datasets L ((k, PNone) # rest) g0 f0
              = copy_metadata_to_h5_datasets L rest g0
                  (f0[g0 := Group (ms @ [(k, length f0)]) as] @ [Dataset (PStr ''None'') []]))"
proof -
  have nm: "\<not> is_mapping PNone" by (simp add: is_mapping_def)
  have a: "\<exists>h. traverse f' g ks = Inr h \<and> h < length f'
               \<and> map_of (attrs (f' ! h)) k = Some (PStr ''None'')"
    if "copy_metadata_to_h5_attrs L m g f = Inr f'" for f'
    using attrs_leaf_at_path [OF assms nm that] by (auto simp: leaf_attr_None)
  have b: "\<exists>c. traverse f' g (ks @ [k]) = Inr c \<and> node f' c = Some (Dataset (PStr ''None'') [])"
    if "copy_metadata_to_h5_datasets L m g f = Inr f'" for f'
    using datasets_leaf_at_path [OF assms nm that] by (auto simp: leaf_data_None)
  from a b show ?thesis
    using copy_attrs_None_step copy_datasets_None_step by blast
qed

text \<open>The hypotheses of C8 hold for \<open>{"a": None, "b": {"c": None}}\<close>, which both copiers copy.\<close>

theorem null_stored_as_None_witness:
  "distinct_keys (PDict [(''a'', PNone), (''b'', PDict [(''c'', PNone)])])
   \<and> lookup_path [(''a'', PNone), (''b'', PDict [(''c'', PNone)])] [''b'', ''c''] = Some PNone
   \<and> copy_metadata_to_h5_attrs accept_all [(''a'', PNone), (''b'', PDict [(''c'', PNone)])] 0 [Group [] []]
       = Inr [Group [(''b'', 1)] [(''a'', PStr ''None'')], Group [] [(''c'', PStr ''None'')]]
   \<and> (\<exists>h. traverse [Group [(''b'', 1)] [(''a'', PStr ''None'')], Group [] [(''c'', PStr ''None'')]] 0 [''b'']
            = Inr h
          \<and> map_of (attrs ([Group [(''b'', 1)] [(''a'', PStr ''None'')], Group [] [(''c'', PStr ''None'')]] ! h))
               ''c'' = Some (PStr ''None''))
   \<and> copy_metadata_to_h5_datasets accept_all [(''a'', PNone), (''b'', PDict [(''c'', PNone)])] 0 [Group [] []]
       = Inr [Group [(''a'', 1), (''b'', 2)] [], Dataset (PStr ''None'') [],
              Group [(''c'', 3)] [], Dataset (PStr ''None'') []]
   \<and> (\<exists>c. traverse [Group [(''a'', 1), (''b'', 2)] [], Dataset (PStr ''None'') [],
                     Group [(''c'', 3)] [], Dataset (PStr ''None'') []] 0 [''b'', ''c''] = Inr c
          \<and> node [Group [(''a'', 1), (''b'', 2)] [], Dataset (PStr ''None'') [],
                   Group [(''c'', 3)] [], Dataset (PStr ''None'') []] c
              = Some (Dataset (PStr ''None'') []))"
proof -
  let ?m = "[(''a'', PNone), (''b'', PDict [(''c'', PNone)])]"
  have h1: "distinct_keys (PDict ?m)" by simp
  have h2: "lookup_path ?m ([''b''] @ [''c'']) = Some PNone" by simp
  have r1: "copy_metadata_to_h5_attrs accept_all ?m 0 [Group [] []]
       = Inr [Group [(''b'', 1)] [(''a'', PStr ''None'')], Group [] [(''c'', PStr ''None'')]]"
    by code_simp
  have r2: "copy_metadata_to_h5_datasets accept_all ?m 0 [Group [] []]
       = Inr [Group [(''a'', 1), (''b'', 2)] [], Dataset (PStr ''None'') [],
              Group [(''c'', 3)] [], Dataset (PStr ''None'') []]"
    by code_simp
  from null_stored_as_None [OF h1 h2, of accept_all 0 "[Group [] []]"] r1 r2 h1 h2
  show ?thesis by auto
qed

text \<open>
  Claim C9. Let the flat metadata mapping hold the single NUL byte at a path of keys.
  Whenever the dataset copier returns, the path leads to a dataset that holds the empty
  string. Copying the leaf is adding a member that holds the empty string: it raises only
  what adding a member raises (the name is taken, the destination is no group), never for
  the value; in a group where the name is free it creates the dataset and goes on.
\<close>

theorem nul_byte_stored_as_empty_string:
  assumes "distinct_keys (PDict m)" and "lookup_path m (ks @ [k]) = Some (PBytes [CHR 0x00])"
  shows "(\<forall>f'. copy_metadata_to_h5_datasets L m g f = Inr f' \<longrightarrow>
            (\<exists>c. traverse f' g (ks @ [k]) = Inr c \<and> node f' c = Some (Dataset (PStr []) [])))
       \<and> (\<forall>f0 g0. create_leaf_dataset L f0 g0 k (normalize_leaf (PBytes [CHR 0x00]))
                     = add_member f0 g0 k (Dataset (PStr []) []))
       \<and> (\<forall>f0 g0 ms as rest. node f0 g0 = Some (Group ms as) \<and> map_of ms k = None \<longrightarrow>
            copy_metadata_to_h5_datasets L ((k, PBytes [CHR 0x00]) # rest) g0 f0
              = copy_metadata_to_h5_datasets L rest g0
                  (f0[g0 := Group (ms @ [(k, length f0)]) as] @ [Dataset (PStr []) []]))"
proof -
  have nm: "\<not> is_mapping (PBytes [CHR 0x00])" by (simp add: is_mapping_def)
  have a: "\<exists>c. traverse f' g (ks @ [k]) = Inr c \<and> node f' c = Some (Dataset (PStr []) [])"
    if "copy_metadata_to_h5_datasets L m g f = Inr f'" for f'
    using datasets_leaf_at_path [OF assms nm that] by (auto simp: leaf_data_nul_byte)
  have b: "create_leaf_dataset L f0 g0 k (normalize_leaf (PBytes [CHR 0x00]))
             = add_member f0 g0 k (Dataset (PStr []) [])" for f0 g0
    using add_member_not_TypeError [of f0 g0 k "Dataset (PStr []) []"]
    by (auto simp: create_leaf_dataset_def normalize_leaf_def str_or_str_sequence_def
        h5_create_string_dataset_def add_member_def split: option.splits h5obj.splits sum.splits)
  from a b show ?thesis
    using copy_datasets_nul_byte_step by blast
qed

text \<open>The hypotheses of C9 hold for \<open>{"data_keys": {"lower_ctrl_limit": b"\x00"}}\<close>.\<close>

theorem nul_byte_stored_as_empty_string_witness:
  "distinct_keys (PDict [(''data_keys'', PDict [(''lower_ctrl_limit'', PBytes [CHR 0x00])])])
   \<and> lookup_path [(''data_keys'', PDict [(''lower_ctrl_limit'', PBytes [CHR 0x00])])]
        [''data_keys'', ''lower_ctrl_limit''] = Some (PBytes [CHR 0x00])
   \<and> copy_metadata_to_h5_datasets accept_all
        [(''data_keys'', PDict [(''lower_ctrl_limit'', PBytes [CHR 0x00])])] 0 [Group [] []]
       = Inr [Group [(''data_keys'', 1)] [], Group [(''lower_ctrl_limit'', 2)] [], Dataset (PStr []) []]
   \<and> (\<exists>c. traverse [Group [(''data_keys'', 1)] [], Group [(''lower_ctrl_limit'', 2)] [], Dataset (PStr []) []]
                0 [''data_keys'', ''lower_ctrl_limit''] = Inr c
          \<and> node [Group [(''data_keys'', 1)] [], Group [(''lower_ctrl_limit'', 2)] [], Dataset (PStr []) []] c
              = Some (Dataset (PStr []) []))"
proof -
  let ?m = "[(''data_keys'', PDict [(''lower_ctrl_limit'', PBytes [CHR 0x00])])]"
  have h1: "distinct_keys (PDict ?m)" by simp
  have h2: "lookup_path ?m ([''data_keys''] @ [''lower_ctrl_limit'']) = Some (PBytes [CHR 0x00])" by simp
  have r: "copy_metadata_to_h5_datasets accept_all ?m 0 [Group [] []]
       = Inr [Group [(''data_keys'', 1)] [], Group [(''lower_ctrl_limit'', 2)] [], Dataset (PStr []) []]"
    by code_simp
  from nul_byte_stored_as_empty_string [OF h1 h2, of accept_all 0 "[Group [] []]"] r h1 h2
  show ?thesis by auto
qed

section \<open>Refused attributes\<close>

lemma set_attributes_refused:
  "node f g = Some obj \<Longrightarrow> list_all (\<lambda>kv. attr_exc L (snd kv) = None) pre \<Longrightarrow>
   attr_exc L v = Some e \<Longrightarrow> set_attributes L (pre @ (k, v) # post) g f = Inl e"
proof (induction pre arbitrary: f obj)
  case Nil
  then show ?case by (simp add: h5_attrs_setitem_def)
next
  case (Cons a pre)
  obtain k0 v0 where a: "a = (k0, v0)" by (cases a)
  from Cons.prems(2) have ok: "attr_exc L v0 = None" and rest: "list_all (\<lambda>kv. attr_exc L (snd kv) = None) pre"
    by (simp_all add: a)
  have s: "h5_attrs_setitem L f g k0 v0 = Inr (f[g := set_attr k0 v0 obj])"
    using Cons.prems(1) ok by (simp add: h5_attrs_setitem_def)
  have n: "node (f[g := set_attr k0 v0 obj]) g = Some (set_attr k0 v0 obj)"
    using Cons.prems(1) by (simp add: node_update node_Some_less)
  from Cons.IH [OF n rest Cons.prems(3)] s show ?case by (simp add: a)
qed

text \<open>
  Claim C7. A value that is no mapping and not \<open>None\<close>, that the library refuses as an
  attribute with \<open>TypeError\<close> and that \<open>json.dumps\<close> accepts: the attribute copier sets the
  attribute to the JSON text of the value and goes on; the interpreter, on an \<open>_attributes\<close>
  mapping in which that value is the first refused one, raises the \<open>TypeError\<close>.
\<close>

theorem attribute_type_error_asymmetry:
  assumes "attr_exc L v = Some TypeError" and "\<not> is_mapping v" and "v \<noteq> PNone"
    and "json_dumps v = Inr js" and "node f g = Some obj"
    and "list_all (\<lambda>kv. attr_exc L (snd kv) = None) pre"
  shows "copy_metadata_to_h5_attrs L ((k, v) # rest) g f
           = copy_metadata_to_h5_attrs L rest g (f[g := set_attr k (PStr js) obj])
       \<and> copy_nexus_md_to_nexus_h5 L ((''_attributes'', PDict (pre @ (k, v) # post)) # rest') g f
           = Inl TypeError"
proof -
  have "js = json_text v" using assms(4) by (simp add: json_dumps_def split: if_splits)
  then have ok: "attr_exc L (PStr js) = None"
    using json_text_no_nul [of v] by (simp add: attr_exc_def)
  have s1: "h5_attrs_setitem L f g k v = Inl TypeError"
    using assms(1,5) by (simp add: h5_attrs_setitem_def)
  have s2: "h5_attrs_setitem L f g k (PStr js) = Inr (f[g := set_attr k (PStr js) obj])"
    using assms(5) ok by (simp add: h5_attrs_setitem_def)
  have a: "copy_metadata_to_h5_attrs L ((k, v) # rest) g f
           = copy_metadata_to_h5_attrs L rest g (f[g := set_attr k (PStr js) obj])"
    using assms(2,3,4) s1 s2
    by (cases v) (simp_all add: copy_metadata_to_h5_attrs.simps is_mapping_def)
  have b: "copy_nexus_md_to_nexus_h5 L ((''_attributes'', PDict (pre @ (k, v) # post)) # rest') g f
           = Inl TypeError"
    using set_attributes_refused [OF assms(5,6,1), of k post]
    by (simp add: copy_nexus_md_to_nexus_h5.simps)
  from a b show ?thesis by simp
qed

text \<open>
  The hypotheses of C7 hold for \<open>{"dimensions": [[["time"], "primary"]]}\<close>, the example of
  the source, and a library that refuses nested sequences.
\<close>

theorem attribute_type_error_asymmetry_witness:
  "attr_exc refuse_nested (PList [PList [PList [PStr ''time''], PStr ''primary'']]) = Some TypeError
   \<and> copy_metadata_to_h5_attrs refuse_nested
        [(''dimensions'', PList [PList [PList [PStr ''time''], PStr ''primary'']])] 0 [Group [] []]
       = Inr [Group [] [(''dimensions'',
                PStr (''[[['' @ [CHR 0x22] @ ''time'' @ [CHR 0x22] @ ''], '' @ [CHR 0x22] @ ''primary'' @ [CHR 0x22] @ '']]''))]]
   \<and> copy_nexus_md_to_nexus_h5 refuse_nested
        [(''_attributes'', PDict [(''dimensions'', PList [PList [PList [PStr ''time''], PStr ''primary'']])])]
        0 [Group [] []]
       = Inl TypeError"
proof -
  let ?v = "PList [PList [PList [PStr ''time''], PStr ''primary'']]"
  let ?js = "''[[['' @ [CHR 0x22] @ ''time'' @ [CHR 0x22] @ ''], '' @ [CHR 0x22] @ ''primary'' @ [CHR 0x22] @ '']]''"
  have h1: "attr_exc refuse_nested ?v = Some TypeError" by (simp add: attr_exc_def refuse_nested_def)
  have h2: "\<not> is_mapping ?v" by (simp add: is_mapping_def)
  have h3: "?v \<noteq> PNone" by simp
  have h4: "json_dumps ?v = Inr ?js" by code_simp
  have h5: "node [Group [] []] 0 = Some (Group [] [])" by (simp add: node_def)
  have h6: "list_all (\<lambda>kv. attr_exc refuse_nested (snd kv) = None) []" by simp
  from attribute_type_error_asymmetry [OF h1 h2 h3 h4 h5 h6, of "''dimensions''" "[]" "[]" "[]"] h1
  show ?thesis by (simp add: copy_metadata_to_h5_attrs.simps(1))
qed

section \<open>Decoding the JSON text\<close>

lemma hex_val_nth: "\<forall>j<16. hex_val (''0123456789abcdef'' ! j) = Some j"
proof -
  have "\<forall>j \<in> set [0..<16]. hex_val (''0123456789abcdef'' ! j) = Some j"
    by (simp add: upt_rec hex_val_def)
  then show ?thesis by simp
qed

lemma hex_val_hex_digit: "hex_val (hex_digit k) = Some ((k::nat) mod 16)"
  using hex_val_nth by (simp add: hex_digit_def)

lemma hex4_escape:
  "(n::nat) < 256 \<Longrightarrow> hex4 CHR ''0'' CHR ''0'' (hex_digit (n div 16)) (hex_digit n) = Some n"
proof -
  assume n: "n < 256"
  have z: "hex_val CHR ''0'' = Some 0" by (simp add: hex_val_def)
  have "n div 16 < 16" using n by simp
  then have "(n div 16) mod 16 = n div 16" by simp
  then show ?thesis
    by (simp add: hex4_def z hex_val_hex_digit)
qed

lemma of_char_less_256: "(of_char (c::char) :: nat) < 256"
  by (metis of_char_mod_256 mod_less_divisor zero_less_numeral)


lemma scan_string_escape_char:
  "scan_string (escape_char c @ rest) = cons_result c (scan_string rest)"
proof -
  let ?n = "of_char c :: nat"
  consider (special) "c = CHR 0x22 \<or> c = CHR 0x5C \<or> c = CHR 0x0A \<or> c = CHR 0x0D \<or> c = CHR 0x09
                       \<or> c = CHR 0x08 \<or> c = CHR 0x0C"
    | (plain) "c \<noteq> CHR 0x22" "c \<noteq> CHR 0x5C" "32 \<le> ?n" "?n \<le> 126"
    | (coded) "c \<noteq> CHR 0x22" "c \<noteq> CHR 0x5C" "c \<noteq> CHR 0x0A" "c \<noteq> CHR 0x0D" "c \<noteq> CHR 0x09"
              "c \<noteq> CHR 0x08" "c \<noteq> CHR 0x0C" "\<not> (32 \<le> ?n \<and> ?n \<le> 126)"
    by blast
  then show ?thesis
  proof cases
    case special
    then show ?thesis by (auto simp: escape_char_def unescape_def)
  next
    case plain
    then have "escape_char c = [c]" by (auto simp: escape_char_def Let_def)
    with plain show ?thesis by simp
  next
    case coded
    then have e: "escape_char c = [CHR 0x5C, CHR ''u'', CHR ''0'', CHR ''0'', hex_digit (?n div 16), hex_digit ?n]"
      by (simp add: escape_char_def Let_def)
    have "hex4 CHR ''0'' CHR ''0'' (hex_digit (?n div 16)) (hex_digit ?n) = Some ?n"
      by (rule hex4_escape) (rule of_char_less_256)
    then show ?thesis by (simp add: e of_char_less_256)
  qed
qed

lemma scan_string_json_str:
  "scan_string (concat (map escape_char s) @ CHR 0x22 # r) = Some (s, r)"
  by (induction s) (simp_all add: scan_string_escape_char cons_result_def)


lemma of_char_digit: "(n::nat) < 10 \<Longrightarrow> (of_char (char_of (48 + n)) :: nat) = 48 + n"
  by simp

lemma char_of_48: "char_of (48::nat) = CHR ''0''"
proof -
  have "char_of (of_char CHR ''0'' :: nat) = CHR ''0''" by (rule char_of_char)
  then show ?thesis by simp
qed

lemma is_digit_char: "(n::nat) < 10 \<Longrightarrow> is_digit (char_of (48 + n))"
  by (simp add: is_digit_def)

lemma digits_nonempty: "digits n \<noteq> []"
  by (subst digits.simps) simp

lemma digits_all_digits: "list_all is_digit (digits n)"
proof (induction n rule: digits.induct)
  case (1 n)
  show ?case
  proof (cases "n < 10")
    case True
    then show ?thesis by (subst digits.simps) (simp add: is_digit_char)
  next
    case False
    have "n mod 10 < 10" by simp
    from is_digit_char [OF this] "1.IH" [OF False] False show ?thesis
      by (subst digits.simps) simp
  qed
qed

lemma nat_of_digits_snoc:
  "nat_of_digits (ds @ [c]) = 10 * nat_of_digits ds + (of_char c - 48)"
  by (simp add: nat_of_digits_def)

lemma nat_of_digits_digits: "nat_of_digits (digits n) = n"
proof (induction n rule: digits.induct)
  case (1 n)
  show ?case
  proof (cases "n < 10")
    case True
    then show ?thesis by (subst digits.simps) (simp add: nat_of_digits_def)
  next
    case False
    have "n mod 10 < 10" by simp
    then have "(of_char (char_of (48 + n mod 10)) :: nat) - 48 = n mod 10"
      by (simp only: of_char_digit)
    with "1.IH" [OF False] False show ?thesis
      by (subst digits.simps) (simp add: nat_of_digits_snoc)
  qed
qed

lemma digits_hd_zero: "hd (digits n) = CHR ''0'' \<longleftrightarrow> n = 0"
proof (induction n rule: digits.induct)
  case (1 n)
  show ?case
  proof (cases "n < 10")
    case True
    have "char_of (48 + n) = CHR ''0'' \<longleftrightarrow> n = 0"
    proof
      assume "char_of (48 + n) = CHR ''0''"
      then have "(of_char (char_of (48 + n)) :: nat) = of_char CHR ''0''" by simp
      with True show "n = 0" by (simp only: of_char_digit) simp
    qed (simp add: char_of_48)
    with True show ?thesis by (subst digits.simps) simp
  next
    case False
    then have "n div 10 \<noteq> 0" by simp
    with "1.IH" [OF False] False digits_nonempty [of "n div 10"] show ?thesis
      by (subst digits.simps) simp
  qed
qed

lemma is_digit_simps [simp]:
  "\<not> is_digit CHR ''-''" "\<not> is_digit CHR '',''" "\<not> is_digit CHR '']''" "\<not> is_digit CHR ''}''"
  by (simp_all add: is_digit_def)

lemma takeWhile_digits:
  "ok_rest r \<Longrightarrow> takeWhile is_digit (digits n @ r) = digits n"
  using digits_all_digits [of n]
  by (cases r) (auto simp: ok_rest_def list_all_iff takeWhile_append2 takeWhile_append1)

lemma scan_number_digits:
  assumes "ok_rest r"
  shows "scan_number (digits n @ r) = Some (PInt (int n), r)"
proof -
  obtain c t where d: "digits n = c # t" using digits_nonempty [of n] by (cases "digits n") auto
  have c: "is_digit c" using digits_all_digits [of n] by (simp add: d)
  then have nm: "c \<noteq> CHR ''-''" by auto
  have r: "\<not> (case r of [] \<Rightarrow> False | c # _ \<Rightarrow> c = CHR ''.'' \<or> c = CHR ''e'' \<or> c = CHR ''E'')"
    using assms by (auto simp: ok_rest_def split: list.splits)
  show ?thesis
  proof (cases "n = 0")
    case True
    then have "digits n = ''0''" by (subst digits.simps) (simp add: char_of_48)
    with r show ?thesis by (simp add: scan_number_def True nat_of_digits_def)
  next
    case False
    then have "c \<noteq> CHR ''0''" using digits_hd_zero [of n] by (simp add: d)
    moreover have "takeWhile is_digit (c # t @ r) = c # t"
      using takeWhile_digits [OF assms, of n] by (simp add: d)
    moreover have "nat_of_digits (c # t) = n" using nat_of_digits_digits [of n] by (simp add: d)
    ultimately show ?thesis
      using nm r by (simp add: scan_number_def d Let_def)
  qed
qed

lemma scan_number_repr_int:
  assumes "ok_rest r"
  shows "scan_number (repr_int i @ r) = Some (PInt i, r)"
proof (cases "i < 0")
  case False
  then show ?thesis using scan_number_digits [OF assms, of "nat i"] by (simp add: repr_int_def)
next
  case True
  let ?n = "nat (- i)"
  obtain c t where d: "digits ?n = c # t" using digits_nonempty [of ?n] by (cases "digits ?n") auto
  have r: "\<not> (case r of [] \<Rightarrow> False | c # _ \<Rightarrow> c = CHR ''.'' \<or> c = CHR ''e'' \<or> c = CHR ''E'')"
    using assms by (auto simp: ok_rest_def split: list.splits)
  have "?n \<noteq> 0" using True by simp
  then have "c \<noteq> CHR ''0''" using digits_hd_zero [of ?n] by (simp add: d)
  moreover have "takeWhile is_digit (c # t @ r) = c # t"
    using takeWhile_digits [OF assms, of ?n] by (simp add: d)
  moreover have "nat_of_digits (c # t) = ?n" using nat_of_digits_digits [of ?n] by (simp add: d)
  ultimately show ?thesis
    using True r by (simp add: scan_number_def repr_int_def d Let_def)
qed


lemma value_start_not_ws: "value_start c \<Longrightarrow> \<not> is_ws c"
  by (auto simp: value_start_def is_ws_def is_digit_def)

lemma value_start_not_close: "value_start c \<Longrightarrow> c \<noteq> CHR '']'' \<and> c \<noteq> CHR ''}''"
  by (auto simp: value_start_def is_digit_def)

lemma skip_ws_Cons: "\<not> is_ws c \<Longrightarrow> skip_ws (c # s) = c # s"
  by (simp add: skip_ws_def)

lemma skip_ws_space: "skip_ws (CHR '' '' # s) = skip_ws s"
  by (simp add: skip_ws_def is_ws_def)

lemma join_Cons: "join sep (x # xs) = x @ concat (map ((@) sep) xs)"
  by (induction xs arbitrary: x) simp_all

lemma repr_int_start: "\<exists>c t. repr_int i = c # t \<and> (c = CHR ''-'' \<or> is_digit c)"
proof -
  have d: "\<exists>c t. digits n = c # t \<and> is_digit c" for n
    using digits_nonempty [of n] digits_all_digits [of n] by (cases "digits n") auto
  show ?thesis
  proof (cases "i < 0")
    case True
    then show ?thesis by (simp add: repr_int_def)
  next
    case False
    with d [of "nat i"] show ?thesis by (auto simp: repr_int_def)
  qed
qed

lemma json_text_start:
  "json_serializable v \<Longrightarrow> \<exists>c t. json_text v = c # t \<and> value_start c"
proof (cases v)
  case (PInt i)
  with repr_int_start [of i] show ?thesis by (auto simp: value_start_def)
qed (auto simp: value_start_def json_str_def)

lemma skip_ws_json_text:
  "json_serializable v \<Longrightarrow> skip_ws (json_text v @ r) = json_text v @ r"
  using json_text_start [of v] by (auto simp: skip_ws_Cons value_start_not_ws)

lemma scan_value_str:
  "scan_value (Suc n) (json_str s @ r) = Some (PStr s, r)"
  by (simp add: json_str_def scan_string_json_str)

lemma scan_value_int:
  assumes "ok_rest r"
  shows "scan_value (Suc n) (repr_int i @ r) = Some (PInt i, r)"
proof -
  from repr_int_start [of i] obtain c t where ct: "repr_int i = c # t" "c = CHR ''-'' \<or> is_digit c"
    by blast
  then have "c \<noteq> CHR 0x22" "c \<noteq> CHR ''[''" "c \<noteq> CHR ''{''" "c \<noteq> CHR ''n''" "c \<noteq> CHR ''t''" "c \<noteq> CHR ''f''"
    by (auto simp: is_digit_def)
  then show ?thesis
    using scan_number_repr_int [OF assms, of i] by (simp add: ct startswith_def)
qed


lemma tail_text_simps [simp]:
  "tail_text [] = []" "tail_text (x # xs) = CHR '','' # CHR '' '' # x @ tail_text xs"
  by (simp_all add: tail_text_def)

lemma join_tail_text: "join '', '' (x # xs) = x @ tail_text xs"
  by (simp add: join_Cons tail_text_def)

lemma ok_rest_simps [simp]:
  "ok_rest []" "ok_rest (CHR '','' # s)" "ok_rest (CHR '']'' # s)" "ok_rest (CHR ''}'' # s)"
  by (simp_all add: ok_rest_def)

lemma ok_rest_tail:
  "ok_rest (tail_text xs @ CHR '']'' # r)"
  "ok_rest (tail_text xs @ CHR ''}'' # r)"
  by (cases xs; simp)+

lemma scan_array_tail_text:
  assumes ih: "\<And>y n r. y \<in> set ys \<Longrightarrow> length (json_text y @ r) < n \<Longrightarrow> ok_rest r \<Longrightarrow>
                 scan_value n (json_text y @ r) = Some (listify y, r)"
    and ser: "list_all json_serializable ys"
  shows "length (tail_text (map json_text ys) @ CHR '']'' # r) < n \<Longrightarrow>
         scan_array_tail n (tail_text (map json_text ys) @ CHR '']'' # r) = Some (map listify ys, r)"
  using ih ser
proof (induction ys arbitrary: n)
  case Nil
  then obtain n1 where n: "n = Suc n1" by (cases n) auto
  show ?case by (simp add: n skip_ws_Cons is_ws_def)
next
  case (Cons y ys)
  let ?rest = "tail_text (map json_text ys) @ CHR '']'' # r"
  from Cons.prems(1) obtain n1 where n: "n = Suc n1" by (cases n) auto
  have len: "length (json_text y @ ?rest) < n1" "length ?rest < n1"
    using Cons.prems(1) by (simp_all add: n)
  have sy: "json_serializable y" using Cons.prems(3) by simp
  have v: "scan_value n1 (json_text y @ ?rest) = Some (listify y, ?rest)"
    by (rule Cons.prems(2)) (simp_all add: len ok_rest_tail del: length_append)
  have t: "scan_array_tail n1 ?rest = Some (map listify ys, r)"
    by (rule Cons.IH [OF len(2)]) (use Cons.prems in auto)
  show ?case
    by (simp add: n skip_ws_Cons is_ws_def skip_ws_space skip_ws_json_text [OF sy] v t)
qed


lemma scan_member_text:
  assumes ih: "\<And>kv n r. kv \<in> set (p # m) \<Longrightarrow> length (json_text (snd kv) @ r) < n \<Longrightarrow> ok_rest r \<Longrightarrow>
                 scan_value n (json_text (snd kv) @ r) = Some (listify (snd kv), r)"
    and ser: "list_all (\<lambda>kv. json_serializable (snd kv)) (p # m)"
  shows "length ((json_str (fst p) @ '': '' @ json_text (snd p))
                  @ tail_text (map (\<lambda>kv. json_str (fst kv) @ '': '' @ json_text (snd kv)) m) @ CHR ''}'' # r) < n \<Longrightarrow>
         scan_member n ((json_str (fst p) @ '': '' @ json_text (snd p))
                  @ tail_text (map (\<lambda>kv. json_str (fst kv) @ '': '' @ json_text (snd kv)) m) @ CHR ''}'' # r)
           = Some (map (\<lambda>kv. (fst kv, listify (snd kv))) (p # m), r)"
  using ih ser
proof (induction m arbitrary: p n)
  case Nil
  let ?rest = "CHR ''}'' # r"
  from Nil.prems(1) obtain n1 where n: "n = Suc n1" by (cases n) auto
  from Nil.prems(1) obtain n2 where n1: "n1 = Suc n2" by (cases n1) (auto simp: n)
  have sp: "json_serializable (snd p)" using Nil.prems(3) by simp
  have "length (json_text (snd p) @ ?rest) < n1" using Nil.prems(1) by (simp add: n)
  then have v: "scan_value n1 (json_text (snd p) @ ?rest) = Some (listify (snd p), ?rest)"
    by (intro Nil.prems(2)) simp_all
  have t: "scan_object_tail n1 ?rest = Some ([], r)"
    by (simp add: n1 skip_ws_Cons is_ws_def)
  have "scan_member (Suc n1) (CHR 0x22 # (concat (map escape_char (fst p))
          @ CHR 0x22 # (CHR '':'' # CHR '' '' # json_text (snd p) @ ?rest)))
        = Some ([(fst p, listify (snd p))], r)"
    by (simp add: scan_string_json_str skip_ws_Cons is_ws_def skip_ws_space startswith_def
        skip_ws_json_text [OF sp] v t del: scan_value.simps scan_object_tail.simps)
  then show ?case by (simp add: n json_str_def)
next
  case (Cons q m)
  let ?pt = "\<lambda>kv. json_str (fst kv) @ '': '' @ json_text (snd kv)"
  define nxt where "nxt = (json_str (fst q) @ '': '' @ json_text (snd q)) @ tail_text (map ?pt m) @ CHR ''}'' # r"
  from Cons.prems(1) obtain n1 where n: "n = Suc n1" by (cases n) auto
  from Cons.prems(1) obtain n2 where n1: "n1 = Suc n2" by (cases n1) (auto simp: n)
  have sp: "json_serializable (snd p)" using Cons.prems(3) by simp
  have whole: "(json_str (fst p) @ '': '' @ json_text (snd p)) @ tail_text (map ?pt (q # m)) @ CHR ''}'' # r
          = CHR 0x22 # (concat (map escape_char (fst p))
              @ CHR 0x22 # (CHR '':'' # CHR '' '' # json_text (snd p) @ CHR '','' # CHR '' '' # nxt))"
    by (simp add: nxt_def json_str_def)
  have ln: "length (json_text (snd p) @ CHR '','' # CHR '' '' # nxt) < n1" "length nxt < n2"
    using Cons.prems(1) unfolding whole by (simp_all add: n n1)
  have v: "scan_value n1 (json_text (snd p) @ CHR '','' # CHR '' '' # nxt)
             = Some (listify (snd p), CHR '','' # CHR '' '' # nxt)"
    using ln(1) by (intro Cons.prems(2)) simp_all
  have m: "scan_member n2 nxt = Some (map (\<lambda>kv. (fst kv, listify (snd kv))) (q # m), r)"
    unfolding nxt_def
    by (rule Cons.IH [OF ln(2) [unfolded nxt_def]]) (use Cons.prems in auto)
  have q: "skip_ws (CHR '' '' # nxt) = nxt"
    by (simp add: skip_ws_space skip_ws_Cons is_ws_def json_str_def nxt_def)
  have t: "scan_object_tail n1 (CHR '','' # CHR '' '' # nxt)
             = Some (map (\<lambda>kv. (fst kv, listify (snd kv))) (q # m), r)"
    unfolding n1 scan_object_tail.simps using m q
    by (simp add: skip_ws_Cons is_ws_def)
  have "scan_member (Suc n1) (CHR 0x22 # (concat (map escape_char (fst p))
          @ CHR 0x22 # (CHR '':'' # CHR '' '' # json_text (snd p) @ CHR '','' # CHR '' '' # nxt)))
        = Some ((fst p, listify (snd p)) # map (\<lambda>kv. (fst kv, listify (snd kv))) (q # m), r)"
    by (simp add: scan_string_json_str skip_ws_Cons is_ws_def skip_ws_space startswith_def
        skip_ws_json_text [OF sp] v t del: scan_value.simps scan_object_tail.simps)
  then show ?case unfolding whole n by simp
qed


lemma dict_of_distinct: "distinct (map fst ps) \<Longrightarrow> dict_of ps = ps"
  using fold_update_distinct [of "[]" ps] by (simp add: dict_of_def)

lemma scan_value_array:
  assumes ih: "\<And>y n r. y \<in> set xs \<Longrightarrow> length (json_text y @ r) < n \<Longrightarrow> ok_rest r \<Longrightarrow>
                 scan_value n (json_text y @ r) = Some (listify y, r)"
    and ser: "list_all json_serializable xs"
    and len: "length (''['' @ join '', '' (map json_text xs) @ '']'' @ r) < n"
  shows "scan_value n (''['' @ join '', '' (map json_text xs) @ '']'' @ r) = Some (PList (map listify xs), r)"
proof -
  from len obtain n1 where n: "n = Suc n1" by (cases n) auto
  show ?thesis
  proof (cases xs)
    case Nil
    then show ?thesis by (simp add: n skip_ws_Cons is_ws_def startswith_def)
  next
    case (Cons x xs')
    define rest where "rest = tail_text (map json_text xs') @ CHR '']'' # r"
    have whole: "''['' @ join '', '' (map json_text xs) @ '']'' @ r = CHR ''['' # json_text x @ rest"
      by (simp add: Cons join_tail_text rest_def)
    have sx: "json_serializable x" using ser by (simp add: Cons)
    from json_text_start [OF sx] obtain c t where ct: "json_text x = c # t" "value_start c" by blast
    have l: "length (json_text x @ rest) < n1" "length rest < n1"
      using len unfolding whole by (simp_all add: n)
    have v: "scan_value n1 (json_text x @ rest) = Some (listify x, rest)"
      using l(1) by (intro ih) (simp_all add: Cons rest_def ok_rest_tail)
    have t: "scan_array_tail n1 rest = Some (map listify xs', r)"
      unfolding rest_def
      by (rule scan_array_tail_text [OF _ _ l(2) [unfolded rest_def]])
        (use ih ser in \<open>auto simp: Cons\<close>)
    have ns: "\<not> startswith (json_text x @ rest) '']''"
      using value_start_not_close [OF ct(2)] by (simp add: ct startswith_def)
    have "scan_value (Suc n1) (CHR ''['' # json_text x @ rest) = Some (PList (listify x # map listify xs'), r)"
      using ns by (simp add: skip_ws_json_text [OF sx] v t del: scan_array_tail.simps)
    then show ?thesis unfolding whole n by (simp add: Cons)
  qed
qed

lemma scan_value_object:
  assumes ih: "\<And>kv n r. kv \<in> set m \<Longrightarrow> length (json_text (snd kv) @ r) < n \<Longrightarrow> ok_rest r \<Longrightarrow>
                 scan_value n (json_text (snd kv) @ r) = Some (listify (snd kv), r)"
    and ser: "list_all (\<lambda>kv. json_serializable (snd kv)) m"
    and dist: "distinct (map fst m)"
    and len: "length (json_text (PDict m) @ r) < n"
  shows "scan_value n (json_text (PDict m) @ r) = Some (listify (PDict m), r)"
proof -
  let ?pt = "\<lambda>kv. json_str (fst kv) @ '': '' @ json_text (snd kv)"
  let ?lf = "\<lambda>kv. (fst kv, listify (snd kv))"
  from len obtain n1 where n: "n = Suc n1" by (cases n) auto
  show ?thesis
  proof (cases m)
    case Nil
    then show ?thesis by (simp add: n skip_ws_Cons is_ws_def startswith_def)
  next
    case (Cons p m')
    define body where "body = (json_str (fst p) @ '': '' @ json_text (snd p)) @ tail_text (map ?pt m') @ CHR ''}'' # r"
    have whole: "json_text (PDict m) @ r = CHR ''{'' # body"
      by (simp add: Cons join_tail_text body_def)
    have l: "length body < n1" using len unfolding whole by (simp add: n)
    have sm: "scan_member n1 body = Some (map ?lf (p # m'), r)"
      unfolding body_def
      by (rule scan_member_text [OF _ _ l [unfolded body_def]]) (use ih ser in \<open>auto simp: Cons\<close>)
    have b: "skip_ws body = body" "\<not> startswith body ''}''"
      by (simp_all add: body_def json_str_def skip_ws_Cons is_ws_def startswith_def)
    have "dict_of (map ?lf (p # m')) = map ?lf (p # m')"
      using dist by (intro dict_of_distinct) (simp add: Cons comp_def)
    then have d: "dict_of ((fst p, listify (snd p)) # map ?lf m') = (fst p, listify (snd p)) # map ?lf m'"
      by simp
    have "scan_value (Suc n1) (CHR ''{'' # body) = Some (PDict (map ?lf (p # m')), r)"
      using b by (simp add: sm d del: scan_member.simps)
    then show ?thesis unfolding whole n by (simp add: Cons)
  qed
qed

lemma scan_value_json_text:
  "json_serializable v \<Longrightarrow> distinct_keys v \<Longrightarrow> length (json_text v @ r) < n \<Longrightarrow> ok_rest r \<Longrightarrow>
   scan_value n (json_text v @ r) = Some (listify v, r)"
proof (induction v arbitrary: n r)
  case PNone
  then obtain n1 where "n = Suc n1" by (cases n) auto
  then show ?case by (simp add: startswith_def)
next
  case (PBool b)
  then obtain n1 where "n = Suc n1" by (cases n) auto
  then show ?case by (simp add: startswith_def)
next
  case (PInt i)
  then obtain n1 where "n = Suc n1" by (cases n) auto
  with PInt.prems(4) show ?case by (simp add: scan_value_int del: scan_value.simps)
next
  case (PStr s)
  then obtain n1 where "n = Suc n1" by (cases n) auto
  then show ?case by (simp add: scan_value_str del: scan_value.simps)
next
  case (PBytes b)
  then show ?case by simp
next
  case (PList xs)
  have "scan_value n (''['' @ join '', '' (map json_text xs) @ '']'' @ r) = Some (PList (map listify xs), r)"
  proof (rule scan_value_array)
    fix y n r assume y: "y \<in> set xs" and a: "length (json_text y @ r) < n" "ok_rest r"
    have "json_serializable y" "distinct_keys y"
      using y PList.prems(1,2) by (simp_all add: list_all_iff)
    from PList.IH [OF y this a]
    show "scan_value n (json_text y @ r) = Some (listify y, r)" .
  qed (use PList.prems in simp_all)
  then show ?case by simp
next
  case (PTuple xs)
  have "scan_value n (''['' @ join '', '' (map json_text xs) @ '']'' @ r) = Some (PList (map listify xs), r)"
  proof (rule scan_value_array)
    fix y n r assume y: "y \<in> set xs" and a: "length (json_text y @ r) < n" "ok_rest r"
    have "json_serializable y" "distinct_keys y"
      using y PTuple.prems(1,2) by (simp_all add: list_all_iff)
    from PTuple.IH [OF y this a]
    show "scan_value n (json_text y @ r) = Some (listify y, r)" .
  qed (use PTuple.prems in simp_all)
  then show ?case by simp
next
  case (PDict m)
  show ?case
  proof (rule scan_value_object)
    fix kv n r assume kv: "kv \<in> set m" and a: "length (json_text (snd kv) @ r) < n" "ok_rest r"
    have s: "snd kv \<in> Basic_BNFs.snds kv" by (cases kv) simp
    have "json_serializable (snd kv)" "distinct_keys (snd kv)"
      using kv PDict.prems(1,2) by (simp_all add: list_all_iff)
    from PDict.IH [OF kv s this a]
    show "scan_value n (json_text (snd kv) @ r) = Some (listify (snd kv), r)" .
  qed (use PDict.prems in simp_all)
qed

text \<open>
  Decoding the JSON text of a serializable value whose dictionaries have distinct keys gives
  the value with every tuple replaced by a list.
\<close>

lemma json_loads_json_text:
  assumes "json_serializable v" and "distinct_keys v"
  shows "json_loads (json_text v) = Some (listify v)"
proof -
  have "scan_value (Suc (length (json_text v))) (json_text v @ []) = Some (listify v, [])"
    by (rule scan_value_json_text [OF assms]) simp_all
  then show ?thesis
    using skip_ws_json_text [OF assms(1), of "[]"] by (simp add: json_loads_def skip_ws_def)
qed

section \<open>The JSON fallback of the dataset copier\<close>

lemma json_text_listify: "json_text (listify v) = json_text v"
proof (induction v)
  case (PList xs)
  then have "map (json_text \<circ> listify) xs = map json_text xs" by simp
  then show ?case by (simp only: listify.simps json_text.simps list.map_comp)
next
  case (PTuple xs)
  then have "map (json_text \<circ> listify) xs = map json_text xs" by simp
  then show ?case by (simp only: listify.simps json_text.simps list.map_comp)
next
  case (PDict m)
  have "json_str (fst kv) @ '': '' @ json_text (listify (snd kv))
          = json_str (fst kv) @ '': '' @ json_text (snd kv)" if "kv \<in> set m" for kv
  proof -
    have "snd kv \<in> Basic_BNFs.snds kv" by (cases kv) simp
    from PDict [OF that this] show ?thesis by simp
  qed
  then have "map ((\<lambda>kv. json_str (fst kv) @ '': '' @ json_text (snd kv)) \<circ> (\<lambda>kv. (fst kv, listify (snd kv)))) m
          = map (\<lambda>kv. json_str (fst kv) @ '': '' @ json_text (snd kv)) m"
    by simp
  then show ?case by (simp only: listify.simps json_text.simps list.map_comp)
qed simp_all

lemma fallback_leaf_data:
  assumes "\<not> str_or_str_sequence (normalize_leaf v)"
    and "data_exc L (normalize_leaf v) = Some TypeError"
    and "leaf_data L v = Inr d"
  shows "d = PStr (json_text v) \<and> json_serializable v \<and> normalize_leaf v = v"
proof -
  have n: "normalize_leaf v = v"
    using assms(1) by (auto simp: normalize_leaf_def str_or_str_sequence_def split: if_splits)
  from assms show ?thesis
    unfolding n by (auto simp: leaf_data_def n json_dumps_def split: if_splits)
qed

lemma map_fixed: "(map f xs = xs) = (\<forall>x\<in>set xs. f x = x)"
  by (induction xs) auto

text \<open>Replacing tuples by lists leaves exactly the values without a tuple unchanged.\<close>

lemma listify_fixed: "(listify v = v) = tuple_free v"
proof (induction v)
  case (PList xs)
  then show ?case by (simp add: map_fixed list_all_iff)
next
  case (PDict m)
  have k: "((fst kv, listify (snd kv)) = kv) = tuple_free (snd kv)" if "kv \<in> set m" for kv
  proof -
    have s: "snd kv \<in> Basic_BNFs.snds kv" by (cases kv) simp
    have "((fst kv, listify (snd kv)) = kv) = (listify (snd kv) = snd kv)" by (cases kv) simp
    also have "\<dots> = tuple_free (snd kv)" by (rule PDict [OF that s])
    finally show ?thesis .
  qed
  have "(\<forall>kv\<in>set m. (fst kv, listify (snd kv)) = kv) = (\<forall>kv\<in>set m. tuple_free (snd kv))"
    by (rule ball_cong [OF refl]) (rule k)
  then show ?case by (simp add: map_fixed list_all_iff)
qed simp_all

text \<open>The keys of a leaf of a mapping are distinct when those of the mapping are.\<close>

lemma distinct_keys_member:
  assumes "distinct_keys (PDict m)" and "map_of m k = Some v"
  shows "distinct_keys v"
proof -
  from assms(2) have "(k, v) \<in> set m" by (rule map_of_SomeD)
  moreover from assms(1) have "\<forall>kv\<in>set m. distinct_keys (snd kv)"
    by (simp add: list_all_iff)
  ultimately show ?thesis by force
qed

lemma distinct_keys_lookup:
  "distinct_keys (PDict m) \<Longrightarrow> lookup_path m p = Some v \<Longrightarrow> distinct_keys v"
proof (induction m p rule: lookup_path.induct)
  case (1 m)
  then show ?case by simp
next
  case (2 m k)
  from "2.prems"(2) have "map_of m k = Some v" by simp
  with "2.prems"(1) show ?case by (rule distinct_keys_member)
next
  case (3 m k k' ks)
  from "3.prems"(2) obtain m' where m': "map_of m k = Some (PDict m')"
    and l: "lookup_path m' (k' # ks) = Some v"
    by (auto split: option.splits pyval.splits)
  from "3.prems"(1) m' have "distinct_keys (PDict m')" by (rule distinct_keys_member)
  from "3.IH" [OF m' refl this l] show ?case .
qed

text \<open>
  Claim C6 as stated fails. The tuple \<open>({"a": 1},)\<close> and the list \<open>[{"a": 1}]\<close> are both
  JSON-serializable, both are refused with \<open>TypeError\<close> by a library that refuses nested
  sequences, and both are stored as the same text \<open>[{"a": 1}]\<close>. JSON-decoding that text
  gives the list \<open>[{"a": 1}]\<close>, which is not the tuple that was copied.
\<close>

theorem json_fallback_counterexample:
  "json_serializable (PTuple [PDict [(''a'', PInt 1)]])
   \<and> copy_metadata_to_h5_datasets refuse_nested [(''hints'', PTuple [PDict [(''a'', PInt 1)]])] 0 [Group [] []]
       = Inr [Group [(''hints'', 1)] [],
              Dataset (PStr (''[{'' @ [CHR 0x22] @ ''a'' @ [CHR 0x22] @ '': 1}]'')) []]
   \<and> copy_metadata_to_h5_datasets refuse_nested [(''hints'', PList [PDict [(''a'', PInt 1)]])] 0 [Group [] []]
       = Inr [Group [(''hints'', 1)] [],
              Dataset (PStr (''[{'' @ [CHR 0x22] @ ''a'' @ [CHR 0x22] @ '': 1}]'')) []]
   \<and> json_loads (''[{'' @ [CHR 0x22] @ ''a'' @ [CHR 0x22] @ '': 1}]'') = Some (PList [PDict [(''a'', PInt 1)]])
   \<and> PTuple [PDict [(''a'', PInt 1)]] \<noteq> PList [PDict [(''a'', PInt 1)]]"
proof -
  let ?v = "PTuple [PDict [(''a'', PInt 1)]]"
  have a: "json_serializable ?v" by simp
  have dk: "distinct_keys ?v" by simp
  have b: "copy_metadata_to_h5_datasets refuse_nested [(''hints'', PTuple [PDict [(''a'', PInt 1)]])] 0 [Group [] []]
       = Inr [Group [(''hints'', 1)] [],
              Dataset (PStr (''[{'' @ [CHR 0x22] @ ''a'' @ [CHR 0x22] @ '': 1}]'')) []]"
    by code_simp
  have c: "copy_metadata_to_h5_datasets refuse_nested [(''hints'', PList [PDict [(''a'', PInt 1)]])] 0 [Group [] []]
       = Inr [Group [(''hints'', 1)] [],
              Dataset (PStr (''[{'' @ [CHR 0x22] @ ''a'' @ [CHR 0x22] @ '': 1}]'')) []]"
    by code_simp
  have t: "json_text ?v = ''[{'' @ [CHR 0x22] @ ''a'' @ [CHR 0x22] @ '': 1}]''"
    by code_simp
  have li: "listify ?v = PList [PDict [(''a'', PInt 1)]]" by simp
  from a dk have "json_loads (json_text ?v) = Some (listify ?v)" by (rule json_loads_json_text)
  then have d: "json_loads (''[{'' @ [CHR 0x22] @ ''a'' @ [CHR 0x22] @ '': 1}]'')
      = Some (PList [PDict [(''a'', PInt 1)]])"
    by (simp only: t li)
  have e: "PTuple [PDict [(''a'', PInt 1)]] \<noteq> PList [PDict [(''a'', PInt 1)]]" by simp
  from a b c d e show ?thesis by (intro conjI)
qed

text \<open>
  Claim C6, as amended. A leaf that the dataset copier stores through the JSON fallback
  (the value is no string and no sequence of strings, and the library refuses it with
  \<open>TypeError\<close>): whenever the copier returns, the path of the leaf leads to a dataset that
  holds the text \<open>json.dumps\<close> gives for the leaf as it was given. JSON-decoding that text
  (\<open>json.loads\<close>) succeeds and gives the value with every tuple replaced by a list; so the
  decoded value is the original leaf value exactly when the leaf holds no tuple.
\<close>

theorem json_fallback_stores_json_text:
  assumes "distinct_keys (PDict m)" and "lookup_path m (ks @ [k]) = Some v" and "\<not> is_mapping v"
    and "\<not> str_or_str_sequence (normalize_leaf v)"
    and "data_exc L (normalize_leaf v) = Some TypeError"
    and "copy_metadata_to_h5_datasets L m g f = Inr f'"
  shows "\<exists>c js. traverse f' g (ks @ [k]) = Inr c
           \<and> node f' c = Some (Dataset (PStr js) [])
           \<and> json_dumps v = Inr js
           \<and> js = json_text (listify v)
           \<and> json_loads js = Some (listify v)
           \<and> (json_loads js = Some v) = tuple_free v"
proof -
  from datasets_leaf_at_path [OF assms(1,2,3,6)] obtain c d where
    c: "traverse f' g (ks @ [k]) = Inr c" and n: "node f' c = Some (Dataset d [])"
    and l: "leaf_data L v = Inr d"
    by blast
  from fallback_leaf_data [OF assms(4,5) l] have d: "d = PStr (json_text v)"
    and s: "json_serializable v"
    by simp_all
  from assms(1,2) have dk: "distinct_keys v" by (rule distinct_keys_lookup)
  from s dk have jl: "json_loads (json_text v) = Some (listify v)" by (rule json_loads_json_text)
  from s have jd: "json_dumps v = Inr (json_text v)" by (simp only: json_dumps_def if_True)
  have jt: "json_text v = json_text (listify v)" by (simp only: json_text_listify)
  have jr: "(json_loads (json_text v) = Some v) = tuple_free v"
    by (simp only: jl option.inject listify_fixed)
  from n have n': "node f' c = Some (Dataset (PStr (json_text v)) [])" by (simp only: d)
  from c n' jd jt jl jr have "traverse f' g (ks @ [k]) = Inr c
           \<and> node f' c = Some (Dataset (PStr (json_text v)) [])
           \<and> json_dumps v = Inr (json_text v)
           \<and> json_text v = json_text (listify v)
           \<and> json_loads (json_text v) = Some (listify v)
           \<and> (json_loads (json_text v) = Some v) = tuple_free v"
    by (intro conjI)
  then show ?thesis by (intro exI)
qed

text \<open>
  The hypotheses of the amended C6 hold for \<open>{"hints": ({"a": 1},)}\<close> and a library that
  refuses nested sequences.
\<close>

theorem json_fallback_stores_json_text_witness:
  "distinct_keys (PDict [(''hints'', PTuple [PDict [(''a'', PInt 1)]])])
   \<and> lookup_path [(''hints'', PTuple [PDict [(''a'', PInt 1)]])] [''hints'']
       = Some (PTuple [PDict [(''a'', PInt 1)]])
   \<and> \<not> is_mapping (PTuple [PDict [(''a'', PInt 1)]])
   \<and> \<not> str_or_str_sequence (normalize_leaf (PTuple [PDict [(''a'', PInt 1)]]))
   \<and> data_exc refuse_nested (normalize_leaf (PTuple [PDict [(''a'', PInt 1)]])) = Some TypeError
   \<and> copy_metadata_to_h5_datasets refuse_nested [(''hints'', PTuple [PDict [(''a'', PInt 1)]])] 0 [Group [] []]
       = Inr [Group [(''hints'', 1)] [],
              Dataset (PStr (''[{'' @ [CHR 0x22] @ ''a'' @ [CHR 0x22] @ '': 1}]'')) []]
   \<and> (\<exists>c js. traverse [Group [(''hints'', 1)] [],
                     Dataset (PStr (''[{'' @ [CHR 0x22] @ ''a'' @ [CHR 0x22] @ '': 1}]'')) []] 0 [''hints'']
            = Inr c
          \<and> node [Group [(''hints'', 1)] [],
                   Dataset (PStr (''[{'' @ [CHR 0x22] @ ''a'' @ [CHR 0x22] @ '': 1}]'')) []] c
              = Some (Dataset (PStr js) [])
          \<and> json_dumps (PTuple [PDict [(''a'', PInt 1)]]) = Inr js
          \<and> js = json_text (listify (PTuple [PDict [(''a'', PInt 1)]]))
          \<and> json_loads js = Some (listify (PTuple [PDict [(''a'', PInt 1)]]))
          \<and> (json_loads js = Some (PTuple [PDict [(''a'', PInt 1)]]))
              = tuple_free (PTuple [PDict [(''a'', PInt 1)]]))"
proof -
  let ?v = "PTuple [PDict [(''a'', PInt 1)]]"
  let ?m = "[(''hints'', ?v)]"
  have h1: "distinct_keys (PDict ?m)" by simp
  have h2: "lookup_path ?m ([] @ [''hints'']) = Some ?v" by simp
  have h2': "lookup_path ?m [''hints''] = Some ?v" by simp
  have h3: "\<not> is_mapping ?v" by (simp add: is_mapping_def)
  have h4: "\<not> str_or_str_sequence (normalize_leaf ?v)"
    by (simp add: normalize_leaf_def str_or_str_sequence_def is_str_def)
  have h5: "data_exc refuse_nested (normalize_leaf ?v) = Some TypeError"
    by (simp add: normalize_leaf_def data_exc_def refuse_nested_def)
  have r: "copy_metadata_to_h5_datasets refuse_nested ?m 0 [Group [] []]
       = Inr [Group [(''hints'', 1)] [],
              Dataset (PStr (''[{'' @ [CHR 0x22] @ ''a'' @ [CHR 0x22] @ '': 1}]'')) []]"
    by code_simp
  from json_fallback_stores_json_text [OF h1 h2 h3 h4 h5 r]
  have e: "\<exists>c js. traverse [Group [(''hints'', 1)] [],
                     Dataset (PStr (''[{'' @ [CHR 0x22] @ ''a'' @ [CHR 0x22] @ '': 1}]'')) []] 0 [''hints'']
            = Inr c
          \<and> node [Group [(''hints'', 1)] [],
                   Dataset (PStr (''[{'' @ [CHR 0x22] @ ''a'' @ [CHR 0x22] @ '': 1}]'')) []] c
              = Some (Dataset (PStr js) [])
          \<and> json_dumps ?v = Inr js
          \<and> js = json_text (listify ?v)
          \<and> json_loads js = Some (listify ?v)
          \<and> (json_loads js = Some ?v) = tuple_free ?v"
    by (simp only: append_Nil)
  from h1 h2' h3 h4 h5 r e show ?thesis by (intro conjI)
qed

end
